theory Spec2Isabelle
  imports Main "HOL-Library.Word"
begin

unbundle bit_operations_syntax

section \<open>Memory, accesses and machine words\<close>

text \<open>
  The routine of \<^verbatim>\<open>arch/riscv/lib/string.c\<close> is modelled for the 64-bit RISC-V
  target of this tree: \<^verbatim>\<open>unsigned long\<close>, \<^verbatim>\<open>size_t\<close> and \<^verbatim>\<open>uintptr_t\<close> are
  64-bit words, so \<^verbatim>\<open>BYTES_LONG\<close> is 8. Memory is a function from addresses to bytes.
  Address arithmetic wraps modulo \<open>2 ^ 64\<close>, as pointer arithmetic on \<^verbatim>\<open>uintptr_t\<close> does.
  Every load and store is logged, in program order, with its width, so that statements
  about which bytes a call touches can be made.
\<close>

type_synonym addr = "64 word"
type_synonym u8 = "8 word"
type_synonym ulong = "64 word"
type_synonym size_t = "64 word"

datatype access = LoadB addr | StoreB addr | LoadW addr | StoreW addr

record state =
  mem :: "addr \<Rightarrow> u8"
  trace :: "access list"

definition BYTES_LONG :: "64 word" where
  "BYTES_LONG = 8"

definition WORD_MASK :: "64 word" where
  "WORD_MASK = BYTES_LONG - 1"

definition MIN_THRESHOLD :: "64 word" where
  "MIN_THRESHOLD = BYTES_LONG * 2"

text \<open>Byte \<open>i\<close> of a word, counted from the least significant byte.\<close>

definition byte_of :: "ulong \<Rightarrow> nat \<Rightarrow> u8" where
  "byte_of w i = ucast (drop_bit (8 * i) w)"

text \<open>
  A word access at address \<open>a\<close> covers the bytes \<open>a .. a + 7\<close>; RISC-V is little-endian,
  so the byte at the lowest address is the least significant one.
\<close>

definition word_at :: "(addr \<Rightarrow> u8) \<Rightarrow> addr \<Rightarrow> ulong" where
  "word_at m a =
     ucast (m a) OR push_bit 8 (ucast (m (a + 1))) OR push_bit 16 (ucast (m (a + 2))) OR
     push_bit 24 (ucast (m (a + 3))) OR push_bit 32 (ucast (m (a + 4))) OR
     push_bit 40 (ucast (m (a + 5))) OR push_bit 48 (ucast (m (a + 6))) OR
     push_bit 56 (ucast (m (a + 7)))"

definition put_word :: "(addr \<Rightarrow> u8) \<Rightarrow> addr \<Rightarrow> ulong \<Rightarrow> (addr \<Rightarrow> u8)" where
  "put_word m a w = (\<lambda>x. if x - a < 8 then byte_of w (unat (x - a)) else m x)"

definition load_u8 :: "addr \<Rightarrow> state \<Rightarrow> u8 \<times> state" where
  "load_u8 a st = (mem st a, st\<lparr>trace := trace st @ [LoadB a]\<rparr>)"

definition store_u8 :: "addr \<Rightarrow> u8 \<Rightarrow> state \<Rightarrow> state" where
  "store_u8 a b st = st\<lparr>mem := (mem st)(a := b), trace := trace st @ [StoreB a]\<rparr>"

definition load_ulong :: "addr \<Rightarrow> state \<Rightarrow> ulong \<times> state" where
  "load_ulong a st = (word_at (mem st) a, st\<lparr>trace := trace st @ [LoadW a]\<rparr>)"

definition store_ulong :: "addr \<Rightarrow> ulong \<Rightarrow> state \<Rightarrow> state" where
  "store_ulong a w st = st\<lparr>mem := put_word (mem st) a w, trace := trace st @ [StoreW a]\<rparr>"

section \<open>The copy routine\<close>

text \<open>The statement \<^verbatim>\<open>*d.as_u8++ = *s.as_u8++\<close> without the increments: load, then store.\<close>

definition copy_u8 :: "addr \<Rightarrow> addr \<Rightarrow> state \<Rightarrow> state" where
  "copy_u8 d s st = (let (b, st1) = load_u8 s st in store_u8 d b st1)"

text \<open>
  The body of the loop of \<^verbatim>\<open>__memcpy_aligned\<close>: eight word loads into \<^verbatim>\<open>d0 .. d7\<close>,
  then eight word stores.
\<close>

definition aligned_block :: "addr \<Rightarrow> addr \<Rightarrow> state \<Rightarrow> state" where
  "aligned_block dest src st =
     (let (d0, st) = load_ulong src st;
          (d1, st) = load_ulong (src + 1 * BYTES_LONG) st;
          (d2, st) = load_ulong (src + 2 * BYTES_LONG) st;
          (d3, st) = load_ulong (src + 3 * BYTES_LONG) st;
          (d4, st) = load_ulong (src + 4 * BYTES_LONG) st;
          (d5, st) = load_ulong (src + 5 * BYTES_LONG) st;
          (d6, st) = load_ulong (src + 6 * BYTES_LONG) st;
          (d7, st) = load_ulong (src + 7 * BYTES_LONG) st;
          st = store_ulong dest d0 st;
          st = store_ulong (dest + 1 * BYTES_LONG) d1 st;
          st = store_ulong (dest + 2 * BYTES_LONG) d2 st;
          st = store_ulong (dest + 3 * BYTES_LONG) d3 st;
          st = store_ulong (dest + 4 * BYTES_LONG) d4 st;
          st = store_ulong (dest + 5 * BYTES_LONG) d5 st;
          st = store_ulong (dest + 6 * BYTES_LONG) d6 st;
          st = store_ulong (dest + 7 * BYTES_LONG) d7 st
      in st)"

text \<open>
  \<^verbatim>\<open>__memcpy_aligned\<close>: \<^verbatim>\<open>for (; count > 0; count -= BYTES_LONG * 8)\<close> on an unsigned
  count. The subtraction wraps, so the loop need not end: the model is a partial
  function, and \<open>None\<close> is a call that never returns.
\<close>

partial_function (option) memcpy_aligned :: "addr \<Rightarrow> addr \<Rightarrow> size_t \<Rightarrow> state \<Rightarrow> state option" where
  "memcpy_aligned dest src count st =
     (if count > 0 then
        memcpy_aligned (dest + 8 * BYTES_LONG) (src + 8 * BYTES_LONG) (count - BYTES_LONG * 8)
          (aligned_block dest src st)
      else Some st)"

text \<open>
  The prefix loop \<^verbatim>\<open>for (; d.as_uptr & WORD_MASK; count--) *d.as_u8++ = *s.as_u8++;\<close>.
  It returns the updated \<^verbatim>\<open>d\<close>, \<^verbatim>\<open>s\<close> and \<^verbatim>\<open>count\<close> with the state.
\<close>

function align_dest :: "addr \<Rightarrow> addr \<Rightarrow> size_t \<Rightarrow> state \<Rightarrow> addr \<times> addr \<times> size_t \<times> state" where
  "align_dest d s count st =
     (if d AND WORD_MASK \<noteq> 0 then align_dest (d + 1) (s + 1) (count - 1) (copy_u8 d s st)
      else (d, s, count, st))"
  by pat_completeness auto


text \<open>The tail loop \<^verbatim>\<open>while (count--) *d.as_u8++ = *s.as_u8++;\<close>.\<close>

function copy_remainder :: "addr \<Rightarrow> addr \<Rightarrow> size_t \<Rightarrow> state \<Rightarrow> state" where
  "copy_remainder d s count st =
     (if count \<noteq> 0 then copy_remainder (d + 1) (s + 1) (count - 1) (copy_u8 d s st)
      else st)"
  by pat_completeness auto

text \<open>
  The merged word \<^verbatim>\<open>last >> (distance * 8) | next << ((BYTES_LONG - distance) * 8)\<close>;
  the shifts are those of \<^verbatim>\<open>unsigned long\<close>: logical to the right, truncating to the left.
\<close>

definition merge_words :: "nat \<Rightarrow> ulong \<Rightarrow> ulong \<Rightarrow> ulong" where
  "merge_words distance last_w next_w =
     drop_bit (distance * 8) last_w OR push_bit ((unat BYTES_LONG - distance) * 8) next_w"

text \<open>
  The shift-merge loop \<^verbatim>\<open>for (; count >= BYTES_LONG; count -= BYTES_LONG)\<close>; \<open>s\<close> is
  the rewound source pointer and \<open>next_w\<close> the word \<^verbatim>\<open>next\<close> loaded before the loop
  (\<open>last_w\<close> is \<^verbatim>\<open>last\<close>).
\<close>

function shift_loop ::
  "nat \<Rightarrow> addr \<Rightarrow> addr \<Rightarrow> size_t \<Rightarrow> ulong \<Rightarrow> state \<Rightarrow> addr \<times> addr \<times> size_t \<times> state" where
  "shift_loop distance d s count next_w st =
     (if count \<ge> BYTES_LONG then
        (let last_w = next_w;
             (next_w, st) = load_ulong (s + 1 * BYTES_LONG) st;
             st = store_ulong d (merge_words distance last_w next_w) st
         in shift_loop distance (d + BYTES_LONG) (s + BYTES_LONG) (count - BYTES_LONG) next_w st)
      else (d, s, count, st))"
  by pat_completeness auto

text \<open>The branch \<^verbatim>\<open>if (distance) { ... }\<close>: rewind, first load, loop, restore.\<close>

definition shift_merge ::
  "nat \<Rightarrow> addr \<Rightarrow> addr \<Rightarrow> size_t \<Rightarrow> state \<Rightarrow> addr \<times> addr \<times> size_t \<times> state" where
  "shift_merge distance d s count st =
     (let s = s - of_nat distance;
          (next_w, st) = load_ulong s st;
          (d, s, count, st) = shift_loop distance d s count next_w st;
          s = s + of_nat distance
      in (d, s, count, st))"

text \<open>The branch \<^verbatim>\<open>else { ... }\<close>: the aligned bulk copy of the largest block multiple.\<close>

definition aligned_path ::
  "addr \<Rightarrow> addr \<Rightarrow> size_t \<Rightarrow> state \<Rightarrow> (addr \<times> addr \<times> size_t \<times> state) option" where
  "aligned_path d s count st =
     (let aligned_count = count AND NOT (BYTES_LONG * 8 - 1)
      in case memcpy_aligned d s aligned_count st of
           None \<Rightarrow> None
         | Some st \<Rightarrow>
             Some (d + aligned_count, s + aligned_count, count AND (BYTES_LONG * 8 - 1), st))"

text \<open>
  \<^verbatim>\<open>__memcpy\<close>. The flag \<open>eff\<close> is \<^verbatim>\<open>IS_ENABLED(CONFIG_HAVE_EFFICIENT_UNALIGNED_ACCESS)\<close>.
  The \<^verbatim>\<open>int distance\<close> holds a value in \<open>0 .. 7\<close> and is a natural number here. The
  result is the returned pointer with the final state, or \<open>None\<close> when the call does not
  return.
\<close>

definition memcpy :: "bool \<Rightarrow> addr \<Rightarrow> addr \<Rightarrow> size_t \<Rightarrow> state \<Rightarrow> (addr \<times> state) option" where
  "memcpy eff dest src count st =
     (if count < MIN_THRESHOLD then Some (dest, copy_remainder dest src count st)
      else
        (let (d, s, count, st) =
               (if \<not> eff then align_dest dest src count st else (dest, src, count, st));
             distance = (if \<not> eff then unat (s AND WORD_MASK) else 0)
         in if distance \<noteq> 0 then
              (let (d, s, count, st) = shift_merge distance d s count st
               in Some (dest, copy_remainder d s count st))
            else
              (case aligned_path d s count st of
                 None \<Rightarrow> None
               | Some (d, s, count, st) \<Rightarrow> Some (dest, copy_remainder d s count st))))"

section \<open>Regions and the reference copy\<close>

text \<open>
  \<open>in_range a n x\<close>: the address \<open>x\<close> is one of the \<open>n\<close> bytes starting at \<open>a\<close>. The offset
  is taken modulo \<open>2 ^ 64\<close>, so a region may wrap around the end of the address space.
\<close>

definition in_range :: "addr \<Rightarrow> nat \<Rightarrow> addr \<Rightarrow> bool" where
  "in_range a n x = (unat (x - a) < n)"

text \<open>Two regions of the same length \<open>n\<close> share no byte.\<close>

definition disjoint :: "addr \<Rightarrow> addr \<Rightarrow> nat \<Rightarrow> bool" where
  "disjoint d s n = (n \<le> unat (s - d) \<and> n \<le> unat (d - s))"

text \<open>The trivial reference copy: one byte after the other, in ascending order.\<close>

fun ref_copy :: "(addr \<Rightarrow> u8) \<Rightarrow> addr \<Rightarrow> addr \<Rightarrow> nat \<Rightarrow> (addr \<Rightarrow> u8)" where
  "ref_copy m d s 0 = m"
| "ref_copy m d s (Suc n) = ref_copy (m(d := m s)) (d + 1) (s + 1) n"

text \<open>The memory in which the first \<open>k\<close> bytes of the destination hold the source bytes of \<open>m\<close>.\<close>

definition copied :: "(addr \<Rightarrow> u8) \<Rightarrow> addr \<Rightarrow> addr \<Rightarrow> nat \<Rightarrow> (addr \<Rightarrow> u8)" where
  "copied m d s k = (\<lambda>x. if in_range d k x then m (s + (x - d)) else m x)"

text \<open>Which bytes an access reads and writes.\<close>

fun reads_byte :: "access \<Rightarrow> addr \<Rightarrow> bool" where
  "reads_byte (LoadB a) x = (x = a)"
| "reads_byte (LoadW a) x = in_range a 8 x"
| "reads_byte (StoreB a) x = False"
| "reads_byte (StoreW a) x = False"

fun writes_byte :: "access \<Rightarrow> addr \<Rightarrow> bool" where
  "writes_byte (StoreB a) x = (x = a)"
| "writes_byte (StoreW a) x = in_range a 8 x"
| "writes_byte (LoadB a) x = False"
| "writes_byte (LoadW a) x = False"

fun is_word_access :: "access \<Rightarrow> bool" where
  "is_word_access (LoadW a) = True"
| "is_word_access (StoreW a) = True"
| "is_word_access (LoadB a) = False"
| "is_word_access (StoreB a) = False"


text \<open>
  A whole word at \<open>w\<close> lies inside the region; a word at \<open>w\<close> shares at least one byte
  with the region.
\<close>

definition word_within :: "addr \<Rightarrow> nat \<Rightarrow> addr \<Rightarrow> bool" where
  "word_within a n w = (unat (w - a) + 8 \<le> n)"

definition word_touches :: "addr \<Rightarrow> nat \<Rightarrow> addr \<Rightarrow> bool" where
  "word_touches a n w = (unat (w - a) < n \<or> (unat (a - w) < 8 \<and> 0 < n))"

text \<open>
  What the accesses of a call \<open>copy(D, S, N)\<close> are allowed to be: byte loads inside the
  source region, stores inside the destination region, and word loads that lie inside
  the source region or, when the call takes the shift-merge path (\<open>sm\<close>), are
  word-aligned and share a byte with it.
\<close>

fun access_ok :: "bool \<Rightarrow> addr \<Rightarrow> addr \<Rightarrow> nat \<Rightarrow> access \<Rightarrow> bool" where
  "access_ok sm D S N (LoadB a) = in_range S N a"
| "access_ok sm D S N (StoreB a) = in_range D N a"
| "access_ok sm D S N (StoreW a) = word_within D N a"
| "access_ok sm D S N (LoadW a) =
     (word_within S N a \<or> (sm \<and> a AND WORD_MASK = 0 \<and> word_touches S N a))"

text \<open>
  The loop invariant of the whole routine, for a call \<open>copy(D, S, N)\<close> started in memory
  \<open>m0\<close>, after \<open>k\<close> bytes: nothing outside the first \<open>k\<close> destination bytes has changed,
  every access so far is allowed and, when the regions are disjoint, the first \<open>k\<close>
  destination bytes are the source bytes.
\<close>

definition copy_inv ::
  "bool \<Rightarrow> (addr \<Rightarrow> u8) \<Rightarrow> addr \<Rightarrow> addr \<Rightarrow> nat \<Rightarrow> nat \<Rightarrow> state \<Rightarrow> bool" where
  "copy_inv sm m0 D S N k st \<longleftrightarrow>
     (\<forall>x. \<not> in_range D k x \<longrightarrow> mem st x = m0 x) \<and>
     (disjoint D S N \<longrightarrow> mem st = copied m0 D S k) \<and>
     list_all (access_ok sm D S N) (trace st)"

text \<open>The accesses of a copy of \<open>n\<close> bytes made one byte after the other.\<close>

fun byte_trace :: "addr \<Rightarrow> addr \<Rightarrow> nat \<Rightarrow> access list" where
  "byte_trace d s 0 = []"
| "byte_trace d s (Suc n) = LoadB s # StoreB d # byte_trace (d + 1) (s + 1) n"

text \<open>
  The accesses of one iteration of the aligned bulk helper, eight word loads followed by
  eight word stores, and of \<open>q\<close> iterations in a row.
\<close>

definition block_trace :: "addr \<Rightarrow> addr \<Rightarrow> access list" where
  "block_trace dest src =
     [LoadW src, LoadW (src + 8), LoadW (src + 16), LoadW (src + 24),
      LoadW (src + 32), LoadW (src + 40), LoadW (src + 48), LoadW (src + 56),
      StoreW dest, StoreW (dest + 8), StoreW (dest + 16), StoreW (dest + 24),
      StoreW (dest + 32), StoreW (dest + 40), StoreW (dest + 48), StoreW (dest + 56)]"

fun aligned_trace :: "addr \<Rightarrow> addr \<Rightarrow> nat \<Rightarrow> access list" where
  "aligned_trace dest src 0 = []"
| "aligned_trace dest src (Suc q) = block_trace dest src @ aligned_trace (dest + 64) (src + 64) q"

text \<open>
  The accesses of \<open>q\<close> iterations of the shift-merge loop, started with the rewound source
  pointer \<open>sa\<close>: each iteration loads the next aligned source word and stores one
  destination word.
\<close>

fun shift_trace :: "addr \<Rightarrow> addr \<Rightarrow> nat \<Rightarrow> access list" where
  "shift_trace d sa 0 = []"
| "shift_trace d sa (Suc q) = LoadW (sa + 8) # StoreW d # shift_trace (d + 8) (sa + 8) q"

section \<open>Termination of the loops\<close>

lemma and7: "(d::64 word) AND 7 = d mod 8"
  using take_bit_eq_mask[of 3 d] take_bit_eq_mod[of 3 d] by (simp add: mask_eq_exp_minus_1)

lemma unat_and7: "unat ((d::64 word) AND 7) = unat d mod 8"
  by (simp add: and7 unat_mod)

lemma unat_succ_mod8: "unat ((d::64 word) + 1) mod 8 = (unat d + 1) mod 8"
proof -
  have "unat (d + 1) = (unat d + 1) mod 2 ^ 64" by (simp add: unat_word_ariths)
  moreover have "(8::nat) dvd 2 ^ 64" by simp
  ultimately show ?thesis by (simp add: mod_mod_cancel)
qed

lemma to_boundary_step:
  "n mod 8 \<noteq> 0 \<Longrightarrow> (8 - (n + 1) mod 8) mod 8 < (8 - n mod 8) mod (8::nat)"
proof -
  assume a: "n mod 8 \<noteq> 0"
  have b: "n mod 8 < 8" by simp
  have c: "(n + 1) mod 8 = (if n mod 8 = 7 then 0 else n mod 8 + 1)"
    using mod_Suc[of n 8] by auto
  from a b have d: "(8 - n mod 8) mod 8 = 8 - n mod 8" by simp
  show ?thesis
  proof (cases "n mod 8 = 7")
    case True then show ?thesis using c by simp
  next
    case False
    then have "(8 - (n + 1) mod 8) mod 8 = 7 - n mod 8" using a b c by simp
    then show ?thesis using a b d by linarith
  qed
qed

lemma align_step:
  "d AND (7::64 word) \<noteq> 0 \<Longrightarrow> (8 - unat ((d + 1) AND 7)) mod 8 < (8 - unat (d AND 7)) mod 8"
proof -
  assume "d AND 7 \<noteq> 0"
  then have "unat (d AND 7) \<noteq> 0" by (simp add: unat_eq_0)
  then have "unat d mod 8 \<noteq> 0" by (simp add: unat_and7)
  then show ?thesis unfolding unat_and7 unat_succ_mod8 by (rule to_boundary_step)
qed

termination align_dest
  by (relation "measure (\<lambda>(d, s, count, st). (8 - unat (d AND 7)) mod 8)")
     (simp_all add: WORD_MASK_def BYTES_LONG_def align_step)

termination copy_remainder
  by (relation "measure (\<lambda>(d, s, count, st). unat count)") (simp_all add: measure_unat)

lemma unat_sub8: "(8::64 word) \<le> count \<Longrightarrow> unat (count - 8) < unat count"
  by unat_arith

termination shift_loop
  by (relation "measure (\<lambda>(distance, d, s, count, next_w, st). unat count)")
     (simp_all add: BYTES_LONG_def unat_sub8)

declare align_dest.simps [simp del] copy_remainder.simps [simp del] shift_loop.simps [simp del]

section \<open>Bytes of words\<close>

lemma bit_byte_of: "bit (byte_of w i) n \<longleftrightarrow> n < 8 \<and> bit w (8 * i + n)"
  by (auto simp: byte_of_def bit_simps)

lemma bit_merge_words:
  "bit (merge_words dist l nx) k \<longleftrightarrow>
     bit l (dist * 8 + k) \<or> ((8 - dist) * 8 \<le> k \<and> k < 64 \<and> bit nx (k - (8 - dist) * 8))"
  by (auto simp add: merge_words_def BYTES_LONG_def bit_simps)

lemma byte_of_merge:
  assumes "0 < dist" "dist < 8" "i < 8"
  shows "byte_of (merge_words dist l nx) i =
     (if i + dist < 8 then byte_of l (i + dist) else byte_of nx (i + dist - 8))"
proof (rule bit_word_eqI)
  fix n assume "n < LENGTH(8)"
  then have n: "n < 8" by simp
  show "bit (byte_of (merge_words dist l nx) i) n =
     bit (if i + dist < 8 then byte_of l (i + dist) else byte_of nx (i + dist - 8)) n"
  proof (cases "i + dist < 8")
    case True
    then have "\<not> (8 - dist) * 8 \<le> 8 * i + n" using n assms by simp
    moreover have "dist * 8 + (8 * i + n) = 8 * (i + dist) + n" by simp
    ultimately show ?thesis using True n by (simp only: bit_byte_of bit_merge_words if_True) simp
  next
    case False
    then have "64 \<le> dist * 8 + (8 * i + n)" by simp
    then have "\<not> bit l (dist * 8 + (8 * i + n))"
      using bit_imp_le_length[of l "dist * 8 + (8 * i + n)"] by auto
    moreover have "8 * i + n - (8 - dist) * 8 = 8 * (i + dist - 8) + n" using False assms by simp
    moreover have "(8 - dist) * 8 \<le> 8 * i + n" "8 * i + n < 64" using False assms n by simp_all
    ultimately show ?thesis using False n by (simp only: bit_byte_of bit_merge_words if_False) simp
  qed
qed

lemma word_eq_bytes: 
  assumes "\<And>i. i < 8 \<Longrightarrow> byte_of w i = byte_of v i" shows "w = v"
proof (rule bit_word_eqI)
  fix n assume "n < LENGTH(64)"
  then have "n div 8 < 8" by simp
  then have "byte_of w (n div 8) = byte_of v (n div 8)" by (rule assms)
  then have "bit (byte_of w (n div 8)) (n mod 8) = bit (byte_of v (n div 8)) (n mod 8)" by simp
  then show "bit w n = bit v n" by (simp add: bit_byte_of)
qed


section \<open>Regions\<close>

lemma unat_of_nat64: "k < 2 ^ 64 \<Longrightarrow> unat (of_nat k :: 64 word) = k"
  by (simp add: unat_of_nat)

lemma in_range_self: "k < n \<Longrightarrow> k < 2 ^ 64 \<Longrightarrow> in_range a n (a + of_nat k)"
  by (simp add: in_range_def unat_of_nat64)

lemma in_range_Suc:
  assumes "k < 2 ^ 64"
  shows "in_range a (Suc k) x \<longleftrightarrow> in_range a k x \<or> x = a + of_nat k"
proof -
  have "unat (x - a) = k \<longleftrightarrow> x = a + of_nat k"
  proof
    assume "unat (x - a) = k"
    then have "of_nat k = x - a" by auto
    then show "x = a + of_nat k" by simp
  next
    assume "x = a + of_nat k"
    then show "unat (x - a) = k" using assms by (simp add: unat_of_nat64)
  qed
  then show ?thesis unfolding in_range_def by auto
qed

lemma unat_split8:
  fixes y kw :: "64 word"
  assumes "unat kw + 8 \<le> 2 ^ 64"
  shows "unat y < unat kw + 8 \<longleftrightarrow> unat y < unat kw \<or> unat (y - kw) < 8"
proof -
  have "unat (y - kw) = (if unat kw \<le> unat y then unat y - unat kw else unat y + 2 ^ 64 - unat kw)"
    unfolding unat_sub_if_size[of y kw] word_size by simp
  then show ?thesis using assms by auto
qed

lemma in_range_add8:
  assumes "k + 8 \<le> 2 ^ 64"
  shows "in_range a (k + 8) x \<longleftrightarrow> in_range a k x \<or> in_range (a + of_nat k) 8 x"
proof -
  have k: "unat (of_nat k :: 64 word) = k" using assms by (simp add: unat_of_nat64)
  show ?thesis
    unfolding in_range_def using unat_split8[of "of_nat k" "x - a"] assms k
    by (simp add: diff_diff_eq)
qed

section \<open>Single accesses and the invariant\<close>

lemma mem_copy_u8 [simp]: "mem (copy_u8 d s st) = (mem st)(d := mem st s)"
  by (simp add: copy_u8_def load_u8_def store_u8_def)

lemma trace_copy_u8 [simp]: "trace (copy_u8 d s st) = trace st @ [LoadB s, StoreB d]"
  by (simp add: copy_u8_def load_u8_def store_u8_def)

lemma load_ulong_simps [simp]:
  "fst (load_ulong a st) = word_at (mem st) a"
  "mem (snd (load_ulong a st)) = mem st"
  "trace (snd (load_ulong a st)) = trace st @ [LoadW a]"
  by (simp_all add: load_ulong_def)

lemma store_ulong_simps [simp]:
  "mem (store_ulong a w st) = put_word (mem st) a w"
  "trace (store_ulong a w st) = trace st @ [StoreW a]"
  by (simp_all add: store_ulong_def)

lemma put_word_apply:
  "put_word m a w x = (if in_range a 8 x then byte_of w (unat (x - a)) else m x)"
  by (simp add: put_word_def in_range_def word_less_nat_alt)

lemma in_range_mono: "in_range a k x \<Longrightarrow> k \<le> n \<Longrightarrow> in_range a n x"
  by (simp add: in_range_def)

lemma disjoint_src_aux:
  fixes a jw :: "64 word"
  assumes "N \<le> unat a" "N \<le> unat (0 - a)" "unat jw < N"
  shows "N \<le> unat (a + jw)"
proof -
  have m: "unat (0 - a) = (if unat a \<le> 0 then 0 else 2 ^ 64 - unat a)"
    unfolding unat_sub_if_size[of 0 a] word_size by simp
  have p: "unat (a + jw) = (if unat a + unat jw < 2 ^ 64 then unat a + unat jw else unat a + unat jw - 2 ^ 64)"
    unfolding unat_plus_if_size[of a jw] word_size by simp
  show ?thesis using assms m p by (auto split: if_splits)
qed

lemma disjoint_src:
  assumes "disjoint D S N" "j < N" "N < 2 ^ 64"
  shows "\<not> in_range D N (S + of_nat j)"
proof -
  have j: "unat (of_nat j :: 64 word) = j" using assms by (simp add: unat_of_nat64)
  have "N \<le> unat ((S - D) + of_nat j)"
    using assms j by (intro disjoint_src_aux) (simp_all add: disjoint_def)
  moreover have "(S - D) + of_nat j = S + of_nat j - D" by simp
  ultimately show ?thesis by (simp add: in_range_def)
qed

lemma disjoint_iff_no_common_byte:
  "disjoint d s n \<longleftrightarrow> \<not> (\<exists>x. in_range d n x \<and> in_range s n x)"
proof
  assume dj: "disjoint d s n"
  show "\<not> (\<exists>x. in_range d n x \<and> in_range s n x)"
  proof
    assume "\<exists>x. in_range d n x \<and> in_range s n x"
    then obtain x where x: "in_range d n x" "in_range s n x" by blast
    have n: "n < 2 ^ 64" using dj unsigned_less[of "s - d", where 'a=nat] by (simp add: disjoint_def)
    have "x = s + of_nat (unat (x - s))" by simp
    moreover have "\<not> in_range d n (s + of_nat (unat (x - s)))"
      using x(2) by (intro disjoint_src[OF dj _ n]) (simp add: in_range_def)
    ultimately show False using x(1) by simp
  qed
next
  assume a: "\<not> (\<exists>x. in_range d n x \<and> in_range s n x)"
  show "disjoint d s n"
  proof (rule ccontr)
    assume "\<not> disjoint d s n"
    then consider "unat (s - d) < n" | "unat (d - s) < n" by (auto simp: disjoint_def)
    then show False
    proof cases
      case 1
      then have "in_range d n s \<and> in_range s n s" by (auto simp: in_range_def)
      then show False using a by blast
    next
      case 2
      then have "in_range d n d \<and> in_range s n d" by (auto simp: in_range_def)
      then show False using a by blast
    qed
  qed
qed

lemma src_intact:
  assumes "copy_inv sm m0 D S N k st" "disjoint D S N" "k \<le> N" "j < N" "N < 2 ^ 64"
  shows "mem st (S + of_nat j) = m0 (S + of_nat j)"
proof -
  have "\<not> in_range D k (S + of_nat j)"
    using disjoint_src[OF assms(2,4,5)] assms(3) in_range_mono by blast
  then show ?thesis using assms(1) by (simp add: copy_inv_def)
qed

lemma copied_Suc:
  assumes "k < 2 ^ 64"
  shows "(copied m0 D S k)(D + of_nat k := m0 (S + of_nat k)) = copied m0 D S (Suc k)"
  by (rule ext) (auto simp: copied_def in_range_Suc[OF assms])

lemma inv_copy_u8:
  assumes "copy_inv sm m0 D S N k st" "k < N" "N < 2 ^ 64"
  shows "copy_inv sm m0 D S N (Suc k) (copy_u8 (D + of_nat k) (S + of_nat k) st)"
proof -
  have k: "k < 2 ^ 64" using assms by simp
  have frame: "\<forall>x. \<not> in_range D (Suc k) x \<longrightarrow> mem (copy_u8 (D + of_nat k) (S + of_nat k) st) x = m0 x"
    using assms(1) by (simp add: copy_inv_def in_range_Suc[OF k])
  have acc: "list_all (access_ok sm D S N) (trace (copy_u8 (D + of_nat k) (S + of_nat k) st))"
    using assms(1) in_range_self[OF assms(2) k] by (simp add: copy_inv_def)
  have cont: "mem (copy_u8 (D + of_nat k) (S + of_nat k) st) = copied m0 D S (Suc k)" if d: "disjoint D S N"
  proof -
    have "mem st (S + of_nat k) = m0 (S + of_nat k)"
      using src_intact[OF assms(1) d _ assms(2,3)] assms(2) by simp
    moreover have "mem st = copied m0 D S k" using assms(1) d by (simp add: copy_inv_def)
    ultimately show ?thesis by (simp add: copied_Suc[OF k])
  qed
  show ?thesis unfolding copy_inv_def using frame acc cont by blast
qed

lemma put_word_copied:
  assumes "k + 8 \<le> 2 ^ 64" "\<And>i. i < 8 \<Longrightarrow> byte_of w i = m0 (S + of_nat (k + i))"
  shows "put_word (copied m0 D S k) (D + of_nat k) w = copied m0 D S (k + 8)"
proof (rule ext)
  fix x
  show "put_word (copied m0 D S k) (D + of_nat k) w x = copied m0 D S (k + 8) x"
  proof (cases "in_range (D + of_nat k) 8 x")
    case True
    then have i: "unat (x - (D + of_nat k)) < 8" by (simp add: in_range_def)
    have "S + of_nat (k + unat (x - (D + of_nat k))) = S + (x - D)" by simp
    then show ?thesis using True assms(2)[OF i] by (simp add: put_word_apply copied_def in_range_add8[OF assms(1)])
  next
    case False
    then show ?thesis by (simp add: put_word_apply copied_def in_range_add8[OF assms(1)])
  qed
qed

lemma inv_store_ulong:
  assumes "copy_inv sm m0 D S N k st" "k + 8 \<le> N" "N < 2 ^ 64"
    and "disjoint D S N \<Longrightarrow> (\<And>i. i < 8 \<Longrightarrow> byte_of w i = m0 (S + of_nat (k + i)))"
  shows "copy_inv sm m0 D S N (k + 8) (store_ulong (D + of_nat k) w st)"
proof -
  have k: "k + 8 \<le> 2 ^ 64" "k < 2 ^ 64" using assms by simp_all
  have frame: "\<forall>x. \<not> in_range D (k + 8) x \<longrightarrow> mem (store_ulong (D + of_nat k) w st) x = m0 x"
    using assms(1) by (simp add: copy_inv_def in_range_add8[OF k(1)] put_word_apply)
  have "word_within D N (D + of_nat k)"
    using assms(2) k by (simp add: word_within_def unat_of_nat64)
  then have acc: "list_all (access_ok sm D S N) (trace (store_ulong (D + of_nat k) w st))"
    using assms(1) by (simp add: copy_inv_def)
  have cont: "mem (store_ulong (D + of_nat k) w st) = copied m0 D S (k + 8)" if d: "disjoint D S N"
  proof -
    have "mem st = copied m0 D S k" using assms(1) d by (simp add: copy_inv_def)
    then show ?thesis using put_word_copied[OF k(1) assms(4)[OF d]] by simp
  qed
  show ?thesis unfolding copy_inv_def using frame acc cont by blast
qed

lemma inv_load_ulong:
  assumes "copy_inv sm m0 D S N k st" "access_ok sm D S N (LoadW a)"
  shows "copy_inv sm m0 D S N k (snd (load_ulong a st))"
  using assms by (simp add: copy_inv_def)

lemma bit_word_at:
  "bit (word_at m a) k \<longleftrightarrow>
     (k < 8 \<and> bit (m a) k) \<or> (8 \<le> k \<and> k < 16 \<and> bit (m (a + 1)) (k - 8)) \<or>
     (16 \<le> k \<and> k < 24 \<and> bit (m (a + 2)) (k - 16)) \<or> (24 \<le> k \<and> k < 32 \<and> bit (m (a + 3)) (k - 24)) \<or>
     (32 \<le> k \<and> k < 40 \<and> bit (m (a + 4)) (k - 32)) \<or> (40 \<le> k \<and> k < 48 \<and> bit (m (a + 5)) (k - 40)) \<or>
     (48 \<le> k \<and> k < 56 \<and> bit (m (a + 6)) (k - 48)) \<or> (56 \<le> k \<and> k < 64 \<and> bit (m (a + 7)) (k - 56))"
proof -
  have p: "bit (push_bit s (ucast w :: 64 word)) k \<longleftrightarrow> s \<le> k \<and> k < s + 8 \<and> bit w (k - s)"
    if "s + 8 \<le> 64" for w :: "8 word" and s
  proof -
    have "bit w (k - s) \<Longrightarrow> k - s < 8" using bit_imp_le_length[of w "k - s"] by simp
    then show ?thesis using that by (auto simp: bit_simps)
  qed
  have u: "bit (ucast w :: 64 word) k \<longleftrightarrow> k < 8 \<and> bit w k" for w :: "8 word"
  proof -
    have "bit w k \<Longrightarrow> k < 8" using bit_imp_le_length[of w k] by simp
    then show ?thesis by (auto simp: bit_simps)
  qed
  show ?thesis unfolding word_at_def bit_or_iff by (simp only: p u) simp
qed


lemma less8_cases: "i < (8::nat) \<Longrightarrow> i = 0 \<or> i = 1 \<or> i = 2 \<or> i = 3 \<or> i = 4 \<or> i = 5 \<or> i = 6 \<or> i = 7"
  by arith

lemma byte_of_word_at: 
  assumes "i < 8" shows "byte_of (word_at m a) i = m (a + of_nat i)"
proof (rule bit_word_eqI)
  fix n assume "n < LENGTH(8)"
  then have n: "n < 8" by simp
  show "bit (byte_of (word_at m a) i) n = bit (m (a + of_nat i)) n"
    using less8_cases[OF assms] n by (elim disjE) (simp_all add: bit_byte_of bit_word_at)
qed

section \<open>The byte loops\<close>

lemma copy_remainder_inv:
  assumes "copy_inv sm m0 D S N k st" "k \<le> N" "N < 2 ^ 64" "unat count = N - k"
  shows "copy_inv sm m0 D S N N (copy_remainder (D + of_nat k) (S + of_nat k) count st)"
  using assms
proof (induction "N - k" arbitrary: k count st)
  case 0
  then have "count = 0" "k = N" by (simp_all add: unat_eq_0)
  then show ?case using "0.prems"(1) by (simp add: copy_remainder.simps)
next
  case (Suc n)
  then have c: "count \<noteq> 0" by auto
  have k: "k < N" using Suc.hyps(2) by simp
  have u: "unat (count - 1) = N - Suc k"
    using c Suc.prems(4) by (simp add: unat_minus_one)
  have i: "copy_inv sm m0 D S N (Suc k) (copy_u8 (D + of_nat k) (S + of_nat k) st)"
    using inv_copy_u8[OF Suc.prems(1) k Suc.prems(3)] .
  have "copy_inv sm m0 D S N N (copy_remainder (D + of_nat (Suc k)) (S + of_nat (Suc k)) (count - 1)
          (copy_u8 (D + of_nat k) (S + of_nat k) st))"
    using Suc.hyps(1)[OF _ i _ Suc.prems(3) u] Suc.hyps(2) k by simp
  then show ?case
    using c by (subst copy_remainder.simps) (simp add: add.commute add.left_commute)
qed

text \<open>The number of bytes from an address up to the next word boundary.\<close>

lemma to_boundary_pred:
  assumes "n mod 8 \<noteq> 0"
  shows "Suc ((8 - (n + 1) mod 8) mod 8) = (8 - n mod 8) mod (8::nat)"
proof -
  have b: "n mod 8 < 8" by simp
  have c: "(n + 1) mod 8 = (if n mod 8 = 7 then 0 else n mod 8 + 1)"
    using mod_Suc[of n 8] by auto
  show ?thesis using assms b c by (cases "n mod 8 = 7") simp_all
qed

lemma to_boundary_0_nat: "r < 8 \<Longrightarrow> (8 - r) mod 8 = 0 \<longleftrightarrow> r = (0::nat)"
  by (drule less8_cases) auto

lemma to_boundary_0: "(8 - unat ((d::64 word) AND 7)) mod 8 = 0 \<longleftrightarrow> d AND 7 = 0"
proof -
  have "unat (d AND 7) < 8" by (simp add: unat_and7)
  then have "(8 - unat (d AND 7)) mod 8 = 0 \<longleftrightarrow> unat (d AND 7) = 0"
    by (rule to_boundary_0_nat)
  also have "\<dots> \<longleftrightarrow> d AND 7 = 0" by (rule unat_eq_0)
  finally show ?thesis .
qed

lemma to_boundary_Suc:
  assumes "(d::64 word) AND 7 \<noteq> 0"
  shows "Suc ((8 - unat ((d + 1) AND 7)) mod 8) = (8 - unat (d AND 7)) mod 8"
proof -
  have "unat (d AND 7) \<noteq> 0" using assms by (simp add: unat_eq_0)
  then have "unat d mod 8 \<noteq> 0" by (simp add: unat_and7)
  then show ?thesis unfolding unat_and7 unat_succ_mod8 by (rule to_boundary_pred)
qed

lemma align_dest_inv:
  assumes "copy_inv sm m0 D S N k st" "N < 2 ^ 64" "unat count = N - k"
    and "k + (8 - unat ((D + of_nat k) AND 7)) mod 8 \<le> N"
  shows "\<exists>k' st'. align_dest (D + of_nat k) (S + of_nat k) count st =
            (D + of_nat k', S + of_nat k', count - of_nat (k' - k), st') \<and>
          k' = k + (8 - unat ((D + of_nat k) AND 7)) mod 8 \<and>
          (D + of_nat k') AND 7 = 0 \<and>
          unat (count - of_nat (k' - k)) = N - k' \<and>
          copy_inv sm m0 D S N k' st'"
  using assms
proof (induction "(8 - unat ((D + of_nat k) AND 7)) mod 8" arbitrary: k count st)
  case 0
  then have a: "(D + of_nat k) AND 7 = 0" by (simp add: to_boundary_0)
  then have "align_dest (D + of_nat k) (S + of_nat k) count st = (D + of_nat k, S + of_nat k, count, st)"
    by (subst align_dest.simps) (simp add: WORD_MASK_def BYTES_LONG_def)
  then show ?case using a "0.prems" "0.hyps" by simp
next
  case (Suc p)
  have a: "(D + of_nat k) AND 7 \<noteq> 0" using Suc.hyps(2) to_boundary_0[of "D + of_nat k"] by auto
  have e: "D + of_nat (Suc k) = D + of_nat k + 1" by simp
  have "Suc ((8 - unat ((D + of_nat k + 1) AND 7)) mod 8) = Suc p"
    using to_boundary_Suc[OF a] Suc.hyps(2) by (simp only:)
  then have p: "p = (8 - unat ((D + of_nat (Suc k)) AND 7)) mod 8"
    by (simp only: e nat.inject)
  have k: "k < N" using Suc.prems(4) Suc.hyps(2) by simp
  have c: "count \<noteq> 0" using Suc.prems(3) k by auto
  have u: "unat (count - 1) = N - Suc k" using c Suc.prems(3) by (simp add: unat_minus_one)
  have i: "copy_inv sm m0 D S N (Suc k) (copy_u8 (D + of_nat k) (S + of_nat k) st)"
    using inv_copy_u8[OF Suc.prems(1) k Suc.prems(2)] .
  have le: "Suc k + (8 - unat ((D + of_nat (Suc k)) AND 7)) mod 8 \<le> N"
    using Suc.prems(4) Suc.hyps(2) p by simp
  obtain k' st' where r:
    "align_dest (D + of_nat (Suc k)) (S + of_nat (Suc k)) (count - 1)
        (copy_u8 (D + of_nat k) (S + of_nat k) st) =
       (D + of_nat k', S + of_nat k', count - 1 - of_nat (k' - Suc k), st')"
    "k' = Suc k + (8 - unat ((D + of_nat (Suc k)) AND 7)) mod 8"
    "(D + of_nat k') AND 7 = 0"
    "unat (count - 1 - of_nat (k' - Suc k)) = N - k'"
    "copy_inv sm m0 D S N k' st'"
    using Suc.hyps(1)[OF p i Suc.prems(2) u le] by blast
  have k': "k' = k + (8 - unat ((D + of_nat k) AND 7)) mod 8"
    using r(2) p Suc.hyps(2) by simp
  have s: "Suc (k' - Suc k) = k' - k" using r(2) by simp
  have e: "count - 1 - of_nat (k' - Suc k) = count - of_nat (k' - k)"
    unfolding s[symmetric] by simp
  have step: "align_dest (D + of_nat k) (S + of_nat k) count st =
      align_dest (D + of_nat (Suc k)) (S + of_nat (Suc k)) (count - 1)
        (copy_u8 (D + of_nat k) (S + of_nat k) st)"
    using a by (subst align_dest.simps) (simp add: WORD_MASK_def BYTES_LONG_def add.commute add.left_commute)
  show ?case
  proof (intro exI conjI)
    show "align_dest (D + of_nat k) (S + of_nat k) count st =
        (D + of_nat k', S + of_nat k', count - of_nat (k' - k), st')"
      using step r(1) unfolding e by (rule trans)
    show "k' = k + (8 - unat ((D + of_nat k) AND 7)) mod 8" by (rule k')
    show "(D + of_nat k') AND 7 = 0" by (rule r(3))
    show "unat (count - of_nat (k' - k)) = N - k'" using r(4) unfolding e .
    show "copy_inv sm m0 D S N k' st'" by (rule r(5))
  qed
qed

section \<open>The shift-merge path\<close>

lemma shift_loop_step:
  "8 \<le> count \<Longrightarrow>
   shift_loop dist d s count nw st =
     shift_loop dist (d + 8) (s + 8) (count - 8) (word_at (mem st) (s + 8))
       (store_ulong d (merge_words dist nw (word_at (mem st) (s + 8))) (snd (load_ulong (s + 8) st)))"
  by (subst shift_loop.simps) (simp add: BYTES_LONG_def Let_def split_def)

lemma shift_loop_exit: "\<not> 8 \<le> count \<Longrightarrow> shift_loop dist d s count nw st = (d, s, count, st)"
  by (subst shift_loop.simps) (simp add: BYTES_LONG_def)

lemma aligned_add8: "(a::64 word) AND 7 = 0 \<Longrightarrow> (a + 8) AND 7 = 0"
proof -
  assume "a AND 7 = 0"
  then have "unat a mod 8 = 0" using unat_and7[of a] by simp
  moreover have "unat (a + 8) = (unat a + 8) mod 2 ^ 64" by (simp add: unat_word_ariths)
  moreover have "(8::nat) dvd 2 ^ 64" by simp
  ultimately have "unat (a + 8) mod 8 = 0" by (simp add: mod_mod_cancel)
  then have "unat ((a + 8) AND 7) = 0" by (simp only: unat_and7)
  then show ?thesis by (simp only: unat_eq_0)
qed

lemma sa_addr:
  fixes sa S :: "64 word"
  assumes "sa + of_nat dist = S + of_nat k" "dist \<le> j"
  shows "sa + of_nat j = S + of_nat (k + (j - dist))"
proof -
  have "(of_nat j :: 64 word) = of_nat dist + of_nat (j - dist)"
    using assms(2) by (simp flip: of_nat_add)
  then have "sa + of_nat j = (sa + of_nat dist) + of_nat (j - dist)" by (simp only: add.assoc)
  then show ?thesis unfolding assms(1) by (simp only: of_nat_add add.assoc)
qed

lemma unat_count_ge8: "unat (count::64 word) = n \<Longrightarrow> 8 \<le> count \<longleftrightarrow> 8 \<le> n"
  by (auto simp: word_le_nat_alt)

lemma unat_count_sub8: "unat (count::64 word) = n \<Longrightarrow> 8 \<le> n \<Longrightarrow> unat (count - 8) = n - 8"
  by (simp add: unat_sub word_le_nat_alt)

lemma shift_loop_inv:
  assumes "copy_inv True m0 D S N k st" "N < 2 ^ 64" "k \<le> N" "unat count = N - k"
    and "0 < dist" "dist < 8" "sa + of_nat dist = S + of_nat k" "sa AND 7 = 0"
    and "disjoint D S N \<Longrightarrow> 8 \<le> N - k \<Longrightarrow>
           (\<And>j. dist \<le> j \<Longrightarrow> j < 8 \<Longrightarrow> byte_of next_w j = m0 (sa + of_nat j))"
  shows "\<exists>k' sa' c' st'.
           shift_loop dist (D + of_nat k) sa count next_w st = (D + of_nat k', sa', c', st') \<and>
           sa' + of_nat dist = S + of_nat k' \<and> k \<le> k' \<and> k' \<le> N \<and>
           unat c' = N - k' \<and> N - k' < 8 \<and> copy_inv True m0 D S N k' st'"
  using assms
proof (induction "N - k" arbitrary: k count next_w st sa rule: less_induct)
  case less
  show ?case
  proof (cases "8 \<le> N - k")
    case False
    then have "\<not> 8 \<le> count" using unat_count_ge8[OF less.prems(4)] by simp
    then have "shift_loop dist (D + of_nat k) sa count next_w st = (D + of_nat k, sa, count, st)"
      by (rule shift_loop_exit)
    then show ?thesis using less.prems False by auto
  next
    case True
    then have c: "8 \<le> count" using unat_count_ge8[OF less.prems(4)] by simp
    have k8: "k + 8 \<le> N" using True less.prems(3) by simp
    define nw where "nw = word_at (mem st) (sa + 8)"
    define st1 where "st1 = snd (load_ulong (sa + 8) st)"
    define st2 where "st2 = store_ulong (D + of_nat k) (merge_words dist next_w nw) st1"
    have step: "shift_loop dist (D + of_nat k) sa count next_w st =
        shift_loop dist (D + of_nat (k + 8)) (sa + 8) (count - 8) nw st2"
      unfolding shift_loop_step[OF c] nw_def st1_def st2_def by (simp add: add.assoc)
    have sa8: "sa + 8 = S + of_nat (k + (8 - dist))"
      using sa_addr[OF less.prems(7), of 8] less.prems(6) by simp
    have b: "k + (8 - dist) < 2 ^ 64" using k8 less.prems(2) by simp
    have "sa + 8 - S = of_nat (k + (8 - dist))" unfolding sa8 by (simp only: add_diff_cancel_left')
    then have "unat (sa + 8 - S) = k + (8 - dist)" by (simp only: unat_of_nat64[OF b])
    moreover have "k + (8 - dist) < N" using k8 less.prems(5) by arith
    ultimately have "word_touches S N (sa + 8)"
      by (simp add: word_touches_def)
    then have ok: "access_ok True D S N (LoadW (sa + 8))"
      using aligned_add8[OF less.prems(8)] by (simp add: WORD_MASK_def BYTES_LONG_def)
    have i1: "copy_inv True m0 D S N k st1"
      unfolding st1_def by (rule inv_load_ulong[OF less.prems(1) ok])
    have m1: "mem st1 = mem st" by (simp add: st1_def)
    have src: "mem st (sa + of_nat j) = m0 (sa + of_nat j)"
      if "disjoint D S N" "dist \<le> j" "k + (j - dist) < N" for j
      unfolding sa_addr[OF less.prems(7) that(2)]
      by (rule src_intact[OF less.prems(1) that(1) less.prems(3) that(3) less.prems(2)])
    have bytes: "byte_of (merge_words dist next_w nw) i = m0 (S + of_nat (k + i))"
      if d: "disjoint D S N" and i: "i < 8" for i
    proof -
      have a: "sa + of_nat (i + dist) = S + of_nat (k + i)"
        using sa_addr[OF less.prems(7), of "i + dist"] by simp
      show ?thesis
      proof (cases "i + dist < 8")
        case True
        then have "byte_of (merge_words dist next_w nw) i = byte_of next_w (i + dist)"
          using byte_of_merge[OF less.prems(5,6) i] by simp
        also have "\<dots> = m0 (sa + of_nat (i + dist))"
          using less.prems(9)[OF d \<open>8 \<le> N - k\<close> _ True] by simp
        finally show ?thesis unfolding a .
      next
        case False
        then have "byte_of (merge_words dist next_w nw) i = byte_of nw (i + dist - 8)"
          using byte_of_merge[OF less.prems(5,6) i] by simp
        also have "\<dots> = mem st (sa + 8 + of_nat (i + dist - 8))"
          unfolding nw_def using i less.prems(6) by (intro byte_of_word_at) simp
        also have "sa + 8 + of_nat (i + dist - 8) = sa + of_nat (i + dist)"
        proof -
          have "i + dist = 8 + (i + dist - 8)" using False by simp
          then have "(of_nat (i + dist) :: 64 word) = 8 + of_nat (i + dist - 8)"
            by (metis of_nat_add of_nat_numeral)
          then show ?thesis by (simp only: add.assoc)
        qed
        also have "mem st (sa + of_nat (i + dist)) = m0 (sa + of_nat (i + dist))"
          using src[OF d, of "i + dist"] i k8 by simp
        finally show ?thesis unfolding a .
      qed
    qed
    have i2: "copy_inv True m0 D S N (k + 8) st2"
      unfolding st2_def by (rule inv_store_ulong[OF i1 k8 less.prems(2) bytes])
    have u: "unat (count - 8) = N - (k + 8)"
      using unat_count_sub8[OF less.prems(4) True] by simp
    have sa': "sa + 8 + of_nat dist = S + of_nat (k + 8)"
      using less.prems(7) by (simp add: add.commute add.left_commute)
    have nxt: "byte_of nw j = m0 (sa + 8 + of_nat j)"
      if d: "disjoint D S N" and n: "8 \<le> N - (k + 8)" and j: "dist \<le> j" "j < 8" for j
    proof -
      have "byte_of nw j = mem st (sa + 8 + of_nat j)"
        unfolding nw_def by (rule byte_of_word_at[OF j(2)])
      also have "sa + 8 + of_nat j = sa + of_nat (8 + j)" by (simp add: add.assoc)
      also have "mem st (sa + of_nat (8 + j)) = m0 (sa + of_nat (8 + j))"
        using src[OF d, of "8 + j"] n j by simp
      finally show ?thesis by (simp add: add.assoc)
    qed
    have lt: "N - (k + 8) < N - k" using k8 by simp
    note ih = less.hyps[OF lt i2 less.prems(2) k8 u less.prems(5,6) sa' aligned_add8[OF less.prems(8)] nxt]
    obtain k' sa' c' st' where r:
      "shift_loop dist (D + of_nat (k + 8)) (sa + 8) (count - 8) nw st2 = (D + of_nat k', sa', c', st')"
      "sa' + of_nat dist = S + of_nat k'" "k + 8 \<le> k'" "k' \<le> N"
      "unat c' = N - k'" "N - k' < 8" "copy_inv True m0 D S N k' st'"
      using ih by blast
    show ?thesis
    proof (intro exI conjI)
      show "shift_loop dist (D + of_nat k) sa count next_w st = (D + of_nat k', sa', c', st')"
        using step r(1) by (rule trans)
      show "sa' + of_nat dist = S + of_nat k'" by (rule r(2))
      show "k \<le> k'" using r(3) by simp
      show "k' \<le> N" by (rule r(4))
      show "unat c' = N - k'" by (rule r(5))
      show "N - k' < 8" by (rule r(6))
      show "copy_inv True m0 D S N k' st'" by (rule r(7))
    qed
  qed
qed

lemma word_touches_byte:
  assumes "in_range S N x" "unat (x - a) < 8"
  shows "word_touches S N a"
proof -
  define j where "j = x - S"
  define t where "t = x - a"
  have e: "a - S = j - t" "S - a = t - j" by (simp_all add: j_def t_def)
  have j: "unat j < N" using assms(1) by (simp add: in_range_def j_def)
  have t: "unat t < 8" using assms(2) by (simp add: t_def)
  have "unat (j - t) = (if unat t \<le> unat j then unat j - unat t else unat j + 2 ^ 64 - unat t)"
    unfolding unat_sub_if_size[of j t] word_size by simp
  moreover have "unat (t - j) = (if unat j \<le> unat t then unat t - unat j else unat t + 2 ^ 64 - unat j)"
    unfolding unat_sub_if_size[of t j] word_size by simp
  ultimately have "unat (j - t) < N \<or> (unat (t - j) < 8 \<and> 0 < N)"
    using j t by (cases "unat t \<le> unat j") auto
  then show ?thesis unfolding word_touches_def e .
qed

lemma sub_low_bits: "((s::64 word) - (s AND 7)) AND 7 = 0"
proof -
  have le: "s mod 8 \<le> s" by (simp add: word_le_nat_alt unat_mod)
  have "unat (s - s mod 8) = unat s - unat s mod 8"
    using le by (simp add: unat_sub unat_mod)
  then have "unat (s - s mod 8) mod 8 = 0" by (simp add: mod_eq_0_iff_dvd dvd_minus_mod)
  then have "unat ((s - s mod 8) AND 7) = 0" by (simp only: unat_and7)
  then show ?thesis by (simp only: unat_eq_0 and7)
qed

lemma shift_merge_inv:
  assumes "copy_inv True m0 D S N k st" "N < 2 ^ 64" "k < N" "unat count = N - k"
    and "dist = unat ((S + of_nat k) AND 7)" "dist \<noteq> 0"
  shows "\<exists>k' c' st'.
           shift_merge dist (D + of_nat k) (S + of_nat k) count st =
             (D + of_nat k', S + of_nat k', c', st') \<and>
           k \<le> k' \<and> k' \<le> N \<and> unat c' = N - k' \<and> N - k' < 8 \<and> copy_inv True m0 D S N k' st'"
proof -
  define sa where "sa = S + of_nat k - of_nat dist"
  define st1 where "st1 = snd (load_ulong sa st)"
  have d8: "dist < 8" "0 < dist" using assms(5,6) by (simp_all add: unat_and7)
  have dw: "(of_nat dist :: 64 word) = (S + of_nat k) AND 7" by (simp add: assms(5))
  have al: "sa AND 7 = 0" unfolding sa_def dw by (rule sub_low_bits)
  have sd: "sa + of_nat dist = S + of_nat k" by (simp add: sa_def)
  have "in_range S N (S + of_nat k)" using assms(2,3) by (intro in_range_self) simp_all
  moreover have "unat (S + of_nat k - sa) < 8"
    using d8 by (simp add: sa_def unat_of_nat64)
  ultimately have "word_touches S N sa" by (rule word_touches_byte)
  then have ok: "access_ok True D S N (LoadW sa)" using al by (simp add: WORD_MASK_def BYTES_LONG_def)
  have i1: "copy_inv True m0 D S N k st1" unfolding st1_def by (rule inv_load_ulong[OF assms(1) ok])
  have nxt: "byte_of (word_at (mem st) sa) j = m0 (sa + of_nat j)"
    if d: "disjoint D S N" and n: "8 \<le> N - k" and j: "dist \<le> j" "j < 8" for j
  proof -
    have "k + (j - dist) < N" using n j by arith
    then have "mem st (S + of_nat (k + (j - dist))) = m0 (S + of_nat (k + (j - dist)))"
      by (rule src_intact[OF assms(1) d less_imp_le[OF assms(3)] _ assms(2)])
    then show ?thesis unfolding byte_of_word_at[OF j(2)] sa_addr[OF sd j(1)] .
  qed
  have le: "k \<le> N" using assms(3) by simp
  obtain k' sa' c' st' where r:
    "shift_loop dist (D + of_nat k) sa count (word_at (mem st) sa) st1 = (D + of_nat k', sa', c', st')"
    "sa' + of_nat dist = S + of_nat k'" "k \<le> k'" "k' \<le> N"
    "unat c' = N - k'" "N - k' < 8" "copy_inv True m0 D S N k' st'"
    using shift_loop_inv[OF i1 assms(2) le assms(4) d8(2,1) sd al nxt] by blast
  have "shift_merge dist (D + of_nat k) (S + of_nat k) count st = (D + of_nat k', sa' + of_nat dist, c', st')"
    using r(1) by (simp add: shift_merge_def Let_def split_def sa_def st1_def)
  then show ?thesis using r by auto
qed

section \<open>The aligned bulk path\<close>

lemma aligned_block_eq:
  "aligned_block d s st =
     (store_ulong (d + 56) (word_at (mem st) (s + 56))
      (store_ulong (d + 48) (word_at (mem st) (s + 48))
      (store_ulong (d + 40) (word_at (mem st) (s + 40))
      (store_ulong (d + 32) (word_at (mem st) (s + 32))
      (store_ulong (d + 24) (word_at (mem st) (s + 24))
      (store_ulong (d + 16) (word_at (mem st) (s + 16))
      (store_ulong (d + 8) (word_at (mem st) (s + 8))
      (store_ulong d (word_at (mem st) s)
      (snd (load_ulong (s + 56)
      (snd (load_ulong (s + 48)
      (snd (load_ulong (s + 40)
      (snd (load_ulong (s + 32)
      (snd (load_ulong (s + 24)
      (snd (load_ulong (s + 16)
      (snd (load_ulong (s + 8)
      (snd (load_ulong s
      st))))))))))))))))))))))))"
  by (simp add: aligned_block_def Let_def split_def BYTES_LONG_def)

lemma word_within_self: "j + 8 \<le> n \<Longrightarrow> j < 2 ^ 64 \<Longrightarrow> word_within a n (a + of_nat j)"
  by (simp add: word_within_def unat_of_nat64)

lemma inv_load_within:
  assumes "copy_inv sm m0 D S N k st" "j + 8 \<le> N" "N < 2 ^ 64" "a = S + of_nat j"
  shows "copy_inv sm m0 D S N k (snd (load_ulong a st))"
proof -
  have "word_within S N a" unfolding assms(4) using assms(2,3) by (intro word_within_self) simp_all
  then show ?thesis using assms(1) by (intro inv_load_ulong) simp_all
qed

lemma inv_store_loaded:
  assumes "copy_inv sm m0 D S N k st" "copy_inv sm m0 D S N (k + c) st'" "k + c + 8 \<le> N" "N < 2 ^ 64"
    and "dw = D + of_nat (k + c)" "sw = S + of_nat (k + c)"
  shows "copy_inv sm m0 D S N (k + c + 8) (store_ulong dw (word_at (mem st) sw) st')"
  unfolding assms(5)
proof (rule inv_store_ulong[OF assms(2,3,4)])
  fix i :: nat assume d: "disjoint D S N" and i: "i < 8"
  have "byte_of (word_at (mem st) sw) i = mem st (S + of_nat (k + c + i))"
    unfolding byte_of_word_at[OF i] assms(6) by (simp add: add.assoc)
  also have "\<dots> = m0 (S + of_nat (k + c + i))"
    using assms(3) i by (intro src_intact[OF assms(1) d _ _ assms(4)]) simp_all
  finally show "byte_of (word_at (mem st) sw) i = m0 (S + of_nat (k + c + i))" .
qed

lemma aligned_block_inv:
  assumes i0: "copy_inv sm m0 D S N k st" and le: "k + 64 \<le> N" and N: "N < 2 ^ 64"
  shows "copy_inv sm m0 D S N (k + 64) (aligned_block (D + of_nat k) (S + of_nat k) st)"
proof -
  define l0 where "l0 = snd (load_ulong (S + of_nat k) st)"
  define l1 where "l1 = snd (load_ulong (S + of_nat k + 8) l0)"
  define l2 where "l2 = snd (load_ulong (S + of_nat k + 16) l1)"
  define l3 where "l3 = snd (load_ulong (S + of_nat k + 24) l2)"
  define l4 where "l4 = snd (load_ulong (S + of_nat k + 32) l3)"
  define l5 where "l5 = snd (load_ulong (S + of_nat k + 40) l4)"
  define l6 where "l6 = snd (load_ulong (S + of_nat k + 48) l5)"
  define l7 where "l7 = snd (load_ulong (S + of_nat k + 56) l6)"
  define s0 where "s0 = store_ulong (D + of_nat k) (word_at (mem st) (S + of_nat k)) l7"
  define s1 where "s1 = store_ulong (D + of_nat k + 8) (word_at (mem st) (S + of_nat k + 8)) s0"
  define s2 where "s2 = store_ulong (D + of_nat k + 16) (word_at (mem st) (S + of_nat k + 16)) s1"
  define s3 where "s3 = store_ulong (D + of_nat k + 24) (word_at (mem st) (S + of_nat k + 24)) s2"
  define s4 where "s4 = store_ulong (D + of_nat k + 32) (word_at (mem st) (S + of_nat k + 32)) s3"
  define s5 where "s5 = store_ulong (D + of_nat k + 40) (word_at (mem st) (S + of_nat k + 40)) s4"
  define s6 where "s6 = store_ulong (D + of_nat k + 48) (word_at (mem st) (S + of_nat k + 48)) s5"
  define s7 where "s7 = store_ulong (D + of_nat k + 56) (word_at (mem st) (S + of_nat k + 56)) s6"
  have e: "aligned_block (D + of_nat k) (S + of_nat k) st = s7"
    unfolding aligned_block_eq s7_def s6_def s5_def s4_def s3_def s2_def s1_def s0_def
      l7_def l6_def l5_def l4_def l3_def l2_def l1_def l0_def ..
  have a0: "copy_inv sm m0 D S N k l0"
    unfolding l0_def using le by (intro inv_load_within[OF i0 _ N, of k]) simp_all
  have a1: "copy_inv sm m0 D S N k l1"
    unfolding l1_def using le by (intro inv_load_within[OF a0 _ N, of "k + 8"]) simp_all
  have a2: "copy_inv sm m0 D S N k l2"
    unfolding l2_def using le by (intro inv_load_within[OF a1 _ N, of "k + 16"]) simp_all
  have a3: "copy_inv sm m0 D S N k l3"
    unfolding l3_def using le by (intro inv_load_within[OF a2 _ N, of "k + 24"]) simp_all
  have a4: "copy_inv sm m0 D S N k l4"
    unfolding l4_def using le by (intro inv_load_within[OF a3 _ N, of "k + 32"]) simp_all
  have a5: "copy_inv sm m0 D S N k l5"
    unfolding l5_def using le by (intro inv_load_within[OF a4 _ N, of "k + 40"]) simp_all
  have a6: "copy_inv sm m0 D S N k l6"
    unfolding l6_def using le by (intro inv_load_within[OF a5 _ N, of "k + 48"]) simp_all
  have a7: "copy_inv sm m0 D S N (k + 0) l7"
    unfolding l7_def using le by (simp, intro inv_load_within[OF a6 _ N, of "k + 56"]) simp_all
  have b0: "copy_inv sm m0 D S N (k + 0 + 8) s0"
    unfolding s0_def using le by (intro inv_store_loaded[OF i0 a7 _ N]) simp_all
  then have b0': "copy_inv sm m0 D S N (k + 8) s0" by (simp add: add.assoc)
  have b1: "copy_inv sm m0 D S N (k + 8 + 8) s1"
    unfolding s1_def using le by (intro inv_store_loaded[OF i0 b0' _ N]) simp_all
  then have b1': "copy_inv sm m0 D S N (k + 16) s1" by (simp add: add.assoc)
  have b2: "copy_inv sm m0 D S N (k + 16 + 8) s2"
    unfolding s2_def using le by (intro inv_store_loaded[OF i0 b1' _ N]) simp_all
  then have b2': "copy_inv sm m0 D S N (k + 24) s2" by (simp add: add.assoc)
  have b3: "copy_inv sm m0 D S N (k + 24 + 8) s3"
    unfolding s3_def using le by (intro inv_store_loaded[OF i0 b2' _ N]) simp_all
  then have b3': "copy_inv sm m0 D S N (k + 32) s3" by (simp add: add.assoc)
  have b4: "copy_inv sm m0 D S N (k + 32 + 8) s4"
    unfolding s4_def using le by (intro inv_store_loaded[OF i0 b3' _ N]) simp_all
  then have b4': "copy_inv sm m0 D S N (k + 40) s4" by (simp add: add.assoc)
  have b5: "copy_inv sm m0 D S N (k + 40 + 8) s5"
    unfolding s5_def using le by (intro inv_store_loaded[OF i0 b4' _ N]) simp_all
  then have b5': "copy_inv sm m0 D S N (k + 48) s5" by (simp add: add.assoc)
  have b6: "copy_inv sm m0 D S N (k + 48 + 8) s6"
    unfolding s6_def using le by (intro inv_store_loaded[OF i0 b5' _ N]) simp_all
  then have b6': "copy_inv sm m0 D S N (k + 56) s6" by (simp add: add.assoc)
  have b7: "copy_inv sm m0 D S N (k + 56 + 8) s7"
    unfolding s7_def using le by (intro inv_store_loaded[OF i0 b6' _ N]) simp_all
  then show ?thesis unfolding e by (simp add: add.assoc)
qed

lemma and_not_63: "(c::64 word) AND NOT 63 = c - (c AND 63)"
proof -
  have "NOT c AND (c AND 63) = 0"
    by (rule bit_eqI) (simp add: bit_and_iff bit_not_iff)
  then have "c - (c AND 63) = c AND NOT (c AND 63)"
    by (rule disjunctive_diff_eq_and_not)
  also have "\<dots> = c AND NOT 63"
    by (rule bit_eqI) (auto simp only: bit_and_iff bit_not_iff)
  finally show ?thesis by simp
qed

lemma and63: "(c::64 word) AND 63 = c mod 64"
  using take_bit_eq_mask[of 6 c] take_bit_eq_mod[of 6 c] by (simp add: mask_eq_exp_minus_1)

lemma unat_and63: "unat ((c::64 word) AND 63) = unat c mod 64"
  by (simp add: and63 unat_mod)

lemma unat_and_not_63: "unat ((c::64 word) AND NOT 63) = 64 * (unat c div 64)"
proof -
  have le: "c mod 64 \<le> c" by (simp add: word_le_nat_alt unat_mod)
  have "unat (c - c mod 64) = unat c - unat c mod 64"
    using le by (simp add: unat_sub unat_mod)
  then show ?thesis unfolding and_not_63 and63 by (simp add: minus_mod_eq_mult_div)
qed

lemma memcpy_aligned_inv:
  assumes "copy_inv sm m0 D S N k st" "N < 2 ^ 64" "k + 64 * q \<le> N" "unat count = 64 * q"
  shows "\<exists>st'. memcpy_aligned (D + of_nat k) (S + of_nat k) count st = Some st' \<and>
               copy_inv sm m0 D S N (k + 64 * q) st'"
  using assms
proof (induction q arbitrary: k count st)
  case 0
  then have "count = 0" by (simp add: unat_eq_0)
  then show ?case using "0.prems"(1) by (subst memcpy_aligned.simps) simp
next
  case (Suc q)
  have c: "0 < count" using Suc.prems(4) by (simp add: word_less_nat_alt)
  have le: "k + 64 \<le> N" using Suc.prems(3) by simp
  have "(64::64 word) \<le> count" using Suc.prems(4) by (simp add: word_le_nat_alt)
  then have u: "unat (count - 64) = 64 * q" using Suc.prems(4) by (simp add: unat_sub)
  have i: "copy_inv sm m0 D S N (k + 64) (aligned_block (D + of_nat k) (S + of_nat k) st)"
    by (rule aligned_block_inv[OF Suc.prems(1) le Suc.prems(2)])
  have le': "k + 64 + 64 * q \<le> N" using Suc.prems(3) by simp
  obtain st' where r:
    "memcpy_aligned (D + of_nat (k + 64)) (S + of_nat (k + 64)) (count - 64)
        (aligned_block (D + of_nat k) (S + of_nat k) st) = Some st'"
    "copy_inv sm m0 D S N (k + 64 + 64 * q) st'"
    using Suc.IH[OF i Suc.prems(2) le' u] by blast
  have "memcpy_aligned (D + of_nat k) (S + of_nat k) count st = Some st'"
    using c r(1) by (subst memcpy_aligned.simps) (simp add: BYTES_LONG_def add.assoc)
  moreover have "k + 64 + 64 * q = k + 64 * Suc q" by simp
  ultimately show ?case using r(2) by (simp only:) simp
qed

lemma aligned_path_inv:
  assumes "copy_inv sm m0 D S N k st" "N < 2 ^ 64" "k \<le> N" "unat count = N - k"
  shows "\<exists>k' st'. aligned_path (D + of_nat k) (S + of_nat k) count st =
             Some (D + of_nat k', S + of_nat k', count AND 63, st') \<and>
           k' = k + 64 * ((N - k) div 64) \<and> k' \<le> N \<and>
           unat (count AND 63) = N - k' \<and> copy_inv sm m0 D S N k' st'"
proof -
  define q where "q = (N - k) div 64"
  define ac where "ac = count AND NOT 63"
  have u: "unat ac = 64 * q" unfolding ac_def q_def unat_and_not_63 assms(4) ..
  have le: "k + 64 * q \<le> N" using assms(3) by (simp add: q_def)
  obtain st' where r:
    "memcpy_aligned (D + of_nat k) (S + of_nat k) ac st = Some st'"
    "copy_inv sm m0 D S N (k + 64 * q) st'"
    using memcpy_aligned_inv[OF assms(1,2) le u] by blast
  have "of_nat (unat ac) = ac" by simp
  then have "ac = of_nat (64 * q)" unfolding u by (rule sym)
  then have a: "D + of_nat k + ac = D + of_nat (k + 64 * q)" "S + of_nat k + ac = S + of_nat (k + 64 * q)"
    by (simp_all only: of_nat_add add.assoc)
  have p: "aligned_path (D + of_nat k) (S + of_nat k) count st =
      Some (D + of_nat (k + 64 * q), S + of_nat (k + 64 * q), count AND 63, st')"
    unfolding a[symmetric] using r(1) by (simp add: aligned_path_def BYTES_LONG_def ac_def Let_def)
  have "unat (count AND 63) = N - (k + 64 * q)"
    unfolding unat_and63 assms(4) q_def using minus_mult_div_eq_mod[of "N - k" 64] by simp
  then show ?thesis using p r(2) le unfolding q_def by blast
qed

section \<open>The whole routine\<close>

lemma copy_inv_start: "copy_inv sm m0 D S N 0 \<lparr>mem = m0, trace = []\<rparr>"
  by (auto simp: copy_inv_def copied_def in_range_def)

lemma to_boundary_le7: "(8 - unat ((d::64 word) AND 7)) mod 8 \<le> 7"
proof -
  have "(8 - unat (d AND 7)) mod 8 < 8" by simp
  then show ?thesis by linarith
qed

lemma memcpy_small:
  "count < 16 \<Longrightarrow> memcpy eff D S count st = Some (D, copy_remainder D S count st)"
  by (simp add: memcpy_def MIN_THRESHOLD_def BYTES_LONG_def)

lemma memcpy_big_eff:
  "\<not> count < 16 \<Longrightarrow> memcpy True D S count st =
     (case aligned_path D S count st of None \<Rightarrow> None
      | Some (d, s, c, st') \<Rightarrow> Some (D, copy_remainder d s c st'))"
  by (simp add: memcpy_def MIN_THRESHOLD_def BYTES_LONG_def)

lemma memcpy_big_shift:
  assumes "\<not> count < 16" "align_dest D S count st = (d, s, c, st1)" "unat (s AND 7) \<noteq> 0"
    and "shift_merge (unat (s AND 7)) d s c st1 = (d', s', c', st2)"
  shows "memcpy False D S count st = Some (D, copy_remainder d' s' c' st2)"
  using assms by (simp add: memcpy_def MIN_THRESHOLD_def BYTES_LONG_def WORD_MASK_def)

lemma memcpy_big_aligned:
  assumes "\<not> count < 16" "align_dest D S count st = (d, s, c, st1)" "unat (s AND 7) = 0"
    and "aligned_path d s c st1 = Some (d', s', c', st2)"
  shows "memcpy False D S count st = Some (D, copy_remainder d' s' c' st2)"
  using assms by (simp add: memcpy_def MIN_THRESHOLD_def BYTES_LONG_def WORD_MASK_def)

lemma and7_add:
  assumes "(a::64 word) AND 7 = 0" "b AND 7 = 0"
  shows "(a + b) AND 7 = 0"
proof -
  have "unat a mod 8 = 0" "unat b mod 8 = 0"
    using assms unat_and7[of a] unat_and7[of b] by simp_all
  then have "(unat a + unat b) mod 8 = 0" by (simp add: mod_eq_0_iff_dvd)
  moreover have "unat (a + b) = (unat a + unat b) mod 2 ^ 64" by (simp add: unat_word_ariths)
  moreover have "(8::nat) dvd 2 ^ 64" by simp
  ultimately have "unat (a + b) mod 8 = 0" by (simp add: mod_mod_cancel)
  then have "unat ((a + b) AND 7) = 0" by (simp only: unat_and7)
  then show ?thesis by (simp only: unat_eq_0)
qed

text \<open>
  The whole call establishes the invariant for all \<open>N\<close> bytes. The flag \<open>sm\<close> may be false
  unless the call takes the shift-merge path: the unaligned-access flag is off, the count
  reaches the threshold, and source and destination differ in their alignment.
\<close>

lemma memcpy_inv:
  assumes N: "N = unat count"
    and sm: "\<not> eff \<and> MIN_THRESHOLD \<le> count \<and> (S - D) AND WORD_MASK \<noteq> 0 \<Longrightarrow> sm"
  shows "\<exists>st'. memcpy eff D S count \<lparr>mem = m0, trace = []\<rparr> = Some (D, st') \<and>
               copy_inv sm m0 D S N N st'"
proof -
  define st0 where "st0 = \<lparr>mem = m0, trace = []\<rparr>"
  have i0: "copy_inv sm m0 D S N 0 st0" unfolding st0_def by (rule copy_inv_start)
  have N64: "N < 2 ^ 64" unfolding N using unsigned_less[of count] by simp
  have z: "D + of_nat 0 = D" "S + of_nat 0 = S" by simp_all
  have c0: "unat count = N - 0" by (simp add: N)
  have tail: "copy_inv sm m0 D S N N (copy_remainder (D + of_nat k) (S + of_nat k) c st)"
    if "copy_inv sm m0 D S N k st" "k \<le> N" "unat c = N - k" for k c st
    by (rule copy_remainder_inv[OF that(1,2) N64 that(3)])
  show ?thesis
  proof (cases "count < 16")
    case True
    have "copy_inv sm m0 D S N N (copy_remainder D S count st0)"
      using tail[OF i0 _ c0] unfolding z by simp
    then show ?thesis unfolding st0_def[symmetric] memcpy_small[OF True] by simp
  next
    case False
    then have N16: "16 \<le> N" unfolding N by (simp add: word_less_nat_alt)
    show ?thesis
    proof (cases eff)
      case True
      obtain k' st' where r:
        "aligned_path (D + of_nat 0) (S + of_nat 0) count st0 =
           Some (D + of_nat k', S + of_nat k', count AND 63, st')"
        "k' \<le> N" "unat (count AND 63) = N - k'" "copy_inv sm m0 D S N k' st'"
        using aligned_path_inv[OF i0 N64 _ c0] by blast
      have "memcpy True D S count st0 =
          Some (D, copy_remainder (D + of_nat k') (S + of_nat k') (count AND 63) st')"
        using r(1)[unfolded z] by (simp add: memcpy_big_eff[OF False])
      then have "memcpy eff D S count st0 =
          Some (D, copy_remainder (D + of_nat k') (S + of_nat k') (count AND 63) st')"
        using True by simp
      then show ?thesis unfolding st0_def[symmetric] using tail[OF r(4,2,3)] by simp
    next
      case eff: False
      have le: "0 + (8 - unat ((D + of_nat 0) AND 7)) mod 8 \<le> N"
        using to_boundary_le7[of "D + of_nat 0"] N16 by linarith
      obtain k' st1 where a:
        "align_dest (D + of_nat 0) (S + of_nat 0) count st0 =
           (D + of_nat k', S + of_nat k', count - of_nat (k' - 0), st1)"
        "k' = 0 + (8 - unat ((D + of_nat 0) AND 7)) mod 8"
        "unat (count - of_nat (k' - 0)) = N - k'" "copy_inv sm m0 D S N k' st1"
        and al: "(D + of_nat k') AND 7 = 0"
        using align_dest_inv[OF i0 N64 c0 le] by blast
      have k7: "k' \<le> 7" unfolding a(2) using to_boundary_le7[of "D + of_nat 0"] by simp
      then have kN: "k' < N" "k' \<le> N" using N16 by simp_all
      show ?thesis
      proof (cases "unat ((S + of_nat k') AND 7) = 0")
        case True
        obtain k'' st2 where r:
          "aligned_path (D + of_nat k') (S + of_nat k') (count - of_nat (k' - 0)) st1 =
             Some (D + of_nat k'', S + of_nat k'', (count - of_nat (k' - 0)) AND 63, st2)"
          "k'' \<le> N" "unat ((count - of_nat (k' - 0)) AND 63) = N - k''" "copy_inv sm m0 D S N k'' st2"
          using aligned_path_inv[OF a(4) N64 kN(2) a(3)] by blast
        have "memcpy False D S count st0 =
            Some (D, copy_remainder (D + of_nat k'') (S + of_nat k'') ((count - of_nat (k' - 0)) AND 63) st2)"
          by (rule memcpy_big_aligned[OF False a(1)[unfolded z] True r(1)])
        then have "memcpy eff D S count st0 =
            Some (D, copy_remainder (D + of_nat k'') (S + of_nat k'') ((count - of_nat (k' - 0)) AND 63) st2)"
          using eff by simp
        then show ?thesis unfolding st0_def[symmetric] using tail[OF r(4,2,3)] by simp
      next
        case nz: False
        have "(S - D) AND 7 \<noteq> 0"
        proof
          assume "(S - D) AND 7 = 0"
          then have "((S - D) + (D + of_nat k')) AND 7 = 0" using al by (rule and7_add)
          then show False using nz by simp
        qed
        moreover have "MIN_THRESHOLD \<le> count"
          using False by (simp add: MIN_THRESHOLD_def BYTES_LONG_def)
        ultimately have smT: "sm = True"
          using sm eff by (simp add: WORD_MASK_def BYTES_LONG_def)
        obtain k'' c' st2 where r:
          "shift_merge (unat ((S + of_nat k') AND 7)) (D + of_nat k') (S + of_nat k')
             (count - of_nat (k' - 0)) st1 = (D + of_nat k'', S + of_nat k'', c', st2)"
          "k'' \<le> N" "unat c' = N - k''" "copy_inv sm m0 D S N k'' st2"
          using shift_merge_inv[OF a(4)[unfolded smT] N64 kN(1) a(3) refl nz] unfolding smT by blast
        have "memcpy False D S count st0 =
            Some (D, copy_remainder (D + of_nat k'') (S + of_nat k'') c' st2)"
          by (rule memcpy_big_shift[OF False a(1)[unfolded z] nz r(1)])
        then have "memcpy eff D S count st0 =
            Some (D, copy_remainder (D + of_nat k'') (S + of_nat k'') c' st2)"
          using eff by simp
        then show ?thesis unfolding st0_def[symmetric] using tail[OF r(4,2,3)] by simp
      qed
    qed
  qed
qed

section \<open>The claims of the specification\<close>

subsection \<open>Correctness (C1)\<close>

lemma copied_dest: "i < n \<Longrightarrow> i < 2 ^ 64 \<Longrightarrow> copied m d s n (d + of_nat i) = m (s + of_nat i)"
  by (simp add: copied_def in_range_self)

lemma unat_count_lt: "i < unat (count::64 word) \<Longrightarrow> i < 2 ^ 64"
  using unsigned_less[of count, where 'a=nat] by simp

text \<open>
  C1. For non-overlapping regions and every count, the call returns, the value returned is
  the destination address and afterwards every destination byte \<open>d[i]\<close>, \<open>i < count\<close>,
  holds the original source byte \<open>s[i]\<close>. This holds for both settings of the
  unaligned-access flag.
\<close>

theorem memcpy_correct:
  assumes "disjoint d s (unat count)"
  shows "\<exists>st'. memcpy eff d s count \<lparr>mem = m, trace = []\<rparr> = Some (d, st') \<and>
           (\<forall>i < unat count. mem st' (d + of_nat i) = m (s + of_nat i))"
proof -
  obtain st' where r: "memcpy eff d s count \<lparr>mem = m, trace = []\<rparr> = Some (d, st')"
    "copy_inv True m d s (unat count) (unat count) st'"
    using memcpy_inv[OF refl TrueI] by blast
  have "mem st' = copied m d s (unat count)" using r(2) assms by (simp add: copy_inv_def)
  then have "\<forall>i < unat count. mem st' (d + of_nat i) = m (s + of_nat i)"
    using unat_count_lt[of _ count] by (simp add: copied_dest)
  then show ?thesis using r(1) by blast
qed

theorem memcpy_correct_witness:
  "disjoint 0x1000 0x2003 (unat (100 :: 64 word)) \<and>
   (\<exists>st'. memcpy False 0x1000 0x2003 100 \<lparr>mem = ucast, trace = []\<rparr> = Some (0x1000, st') \<and>
      (\<forall>i < unat (100 :: 64 word). mem st' (0x1000 + of_nat i) = ucast (0x2003 + of_nat i :: 64 word)))"
proof -
  have d: "disjoint 0x1000 0x2003 (unat (100 :: 64 word))" by (simp add: disjoint_def)
  show ?thesis using d memcpy_correct[OF d, of False ucast] by blast
qed

subsection \<open>Frame (C4)\<close>

lemma unat_add_le: "unat ((p::64 word) + q) \<le> unat p + unat q"
  unfolding unat_plus_if_size[of p q] by simp

lemma word_within_byte:
  assumes "word_within D N a" "in_range a 8 x"
  shows "in_range D N x"
proof -
  have "x - D = (a - D) + (x - a)" by simp
  then have "unat (x - D) \<le> unat (a - D) + unat (x - a)" using unat_add_le[of "a - D" "x - a"] by simp
  then show ?thesis using assms by (simp add: word_within_def in_range_def)
qed

lemma word_touches_some_byte:
  assumes "word_touches S N a"
  shows "\<exists>y. in_range a 8 y \<and> in_range S N y"
proof -
  from assms consider "unat (a - S) < N" | "unat (S - a) < 8" "0 < N"
    unfolding word_touches_def by blast
  then show ?thesis
  proof cases
    case 1
    then have "in_range a 8 a \<and> in_range S N a" by (simp add: in_range_def)
    then show ?thesis ..
  next
    case 2
    then have "in_range a 8 S \<and> in_range S N S" by (simp add: in_range_def)
    then show ?thesis ..
  qed
qed

lemma access_ok_writes: "access_ok sm D S N e \<Longrightarrow> writes_byte e x \<Longrightarrow> in_range D N x"
  by (cases e) (auto intro: word_within_byte)

lemma access_ok_reads:
  assumes "access_ok sm D S N e" "reads_byte e x"
  shows "in_range S N x \<or>
    (sm \<and> (\<exists>a. e = LoadW a \<and> a AND WORD_MASK = 0 \<and> (\<exists>y. reads_byte e y \<and> in_range S N y)))"
proof (cases e)
  case (LoadW a)
  then show ?thesis using assms word_within_byte[of S N a x] word_touches_some_byte[of S N a]
    by auto
qed (use assms in auto)

text \<open>
  C4. Every byte outside \<open>[d, d + count)\<close> has the same value after the call as before it,
  and no store of the call, of either width and in any phase, touches a byte outside that
  region. No assumption on the regions is needed.
\<close>

theorem memcpy_frame:
  "\<exists>st'. memcpy eff d s count \<lparr>mem = m, trace = []\<rparr> = Some (d, st') \<and>
     (\<forall>x. \<not> in_range d (unat count) x \<longrightarrow> mem st' x = m x) \<and>
     (\<forall>e \<in> set (trace st'). \<forall>x. writes_byte e x \<longrightarrow> in_range d (unat count) x)"
proof -
  obtain st' where r: "memcpy eff d s count \<lparr>mem = m, trace = []\<rparr> = Some (d, st')"
    "copy_inv True m d s (unat count) (unat count) st'"
    using memcpy_inv[OF refl TrueI] by blast
  have "\<forall>x. \<not> in_range d (unat count) x \<longrightarrow> mem st' x = m x"
    using r(2) by (simp add: copy_inv_def)
  moreover have "\<forall>e \<in> set (trace st'). \<forall>x. writes_byte e x \<longrightarrow> in_range d (unat count) x"
    using r(2) access_ok_writes by (auto simp: copy_inv_def list_all_iff)
  ultimately show ?thesis using r(1) by blast
qed

theorem memcpy_frame_witness:
  "\<exists>st'. memcpy False 0x1000 0x2003 100 \<lparr>mem = ucast, trace = []\<rparr> = Some (0x1000, st') \<and>
     \<not> in_range 0x1000 (unat (100 :: 64 word)) 0x0FFF \<and> mem st' 0x0FFF = 0xFF \<and>
     \<not> in_range 0x1000 (unat (100 :: 64 word)) 0x1064 \<and> mem st' 0x1064 = 0x64"
proof -
  have a: "\<not> in_range 0x1000 (unat (100 :: 64 word)) 0x0FFF"
    by (simp add: in_range_def unsigned_minus_1_eq_mask mask_eq_exp_minus_1)
  have b: "\<not> in_range 0x1000 (unat (100 :: 64 word)) 0x1064" by (simp add: in_range_def)
  show ?thesis using memcpy_frame[of False "0x1000" "0x2003" 100 ucast] a b by auto
qed

subsection \<open>Zero length (C8) and independence of the destination contents (C9)\<close>

text \<open>
  C8. A call with \<open>count = 0\<close> returns the destination address and leaves the whole state
  as it was: the memory is unchanged and no access, neither a load nor a store, is added
  to the log.
\<close>

theorem memcpy_zero: "memcpy eff d s 0 st = Some (d, st)"
  by (simp add: memcpy_small copy_remainder.simps)

text \<open>
  C9. Two calls with the same addresses and count, on disjoint regions, started in memories
  that agree on the source region and differ anywhere else (in particular in the
  destination region), both return and leave the same bytes in the destination region.
\<close>

theorem memcpy_dest_independent:
  assumes "disjoint d s (unat count)"
    and "\<forall>i < unat count. m1 (s + of_nat i) = m2 (s + of_nat i)"
  shows "\<exists>st1 st2.
           memcpy eff d s count \<lparr>mem = m1, trace = []\<rparr> = Some (d, st1) \<and>
           memcpy eff d s count \<lparr>mem = m2, trace = []\<rparr> = Some (d, st2) \<and>
           (\<forall>i < unat count. mem st1 (d + of_nat i) = mem st2 (d + of_nat i))"
proof -
  obtain st1 where r1: "memcpy eff d s count \<lparr>mem = m1, trace = []\<rparr> = Some (d, st1)"
    "copy_inv True m1 d s (unat count) (unat count) st1"
    using memcpy_inv[OF refl TrueI] by blast
  obtain st2 where r2: "memcpy eff d s count \<lparr>mem = m2, trace = []\<rparr> = Some (d, st2)"
    "copy_inv True m2 d s (unat count) (unat count) st2"
    using memcpy_inv[OF refl TrueI] by blast
  have "mem st1 = copied m1 d s (unat count)" "mem st2 = copied m2 d s (unat count)"
    using r1(2) r2(2) assms(1) by (simp_all add: copy_inv_def)
  then have "\<forall>i < unat count. mem st1 (d + of_nat i) = mem st2 (d + of_nat i)"
    using unat_count_lt[of _ count] assms(2) by (simp add: copied_dest)
  then show ?thesis using r1(1) r2(1) by blast
qed

theorem memcpy_dest_independent_witness:
  "disjoint 0x1000 0x2003 (unat (100 :: 64 word)) \<and>
   (\<exists>st1 st2.
      memcpy False 0x1000 0x2003 100 \<lparr>mem = ucast, trace = []\<rparr> = Some (0x1000, st1) \<and>
      memcpy False 0x1000 0x2003 100
        \<lparr>mem = (\<lambda>a. if in_range 0x2003 100 a then ucast a else 0xAA), trace = []\<rparr> =
        Some (0x1000, st2) \<and>
      (\<forall>i < unat (100 :: 64 word). mem st1 (0x1000 + of_nat i) = mem st2 (0x1000 + of_nat i)))"
proof -
  have d: "disjoint 0x1000 0x2003 (unat (100 :: 64 word))" by (simp add: disjoint_def)
  have a: "\<forall>i < unat (100 :: 64 word). (ucast :: 64 word \<Rightarrow> 8 word) (0x2003 + of_nat i) =
      (\<lambda>a. if in_range 0x2003 100 a then ucast a else 0xAA) (0x2003 + of_nat i)"
    by (simp add: in_range_self)
  show ?thesis using d memcpy_dest_independent[OF d a, of False] by blast
qed

subsection \<open>Reads (C2)\<close>

text \<open>
  C2, as amended. Every byte the call reads lies in the source region, except on the
  shift-merge path (unaligned-access flag off, \<open>count \<ge> 2W\<close>, source and destination of
  different alignment modulo \<open>W\<close>): there a byte outside the region is read only by a word
  load at a word-aligned address that also reads at least one byte of the region, so at
  most \<open>W - 1\<close> bytes before the first and after the last source byte are read. No
  assumption on the regions is needed.
\<close>

theorem memcpy_reads:
  "\<exists>st'. memcpy eff d s count \<lparr>mem = m, trace = []\<rparr> = Some (d, st') \<and>
     (\<forall>e \<in> set (trace st'). \<forall>x. reads_byte e x \<longrightarrow>
        in_range s (unat count) x \<or>
        ((\<not> eff \<and> MIN_THRESHOLD \<le> count \<and> (s - d) AND WORD_MASK \<noteq> 0) \<and>
         (\<exists>a. e = LoadW a \<and> a AND WORD_MASK = 0 \<and>
            (\<exists>y. reads_byte e y \<and> in_range s (unat count) y))))"
proof -
  define sm where "sm \<longleftrightarrow> \<not> eff \<and> MIN_THRESHOLD \<le> count \<and> (s - d) AND WORD_MASK \<noteq> 0"
  have "\<not> eff \<and> MIN_THRESHOLD \<le> count \<and> (s - d) AND WORD_MASK \<noteq> 0 \<Longrightarrow> sm"
    by (simp add: sm_def)
  then obtain st' where r: "memcpy eff d s count \<lparr>mem = m, trace = []\<rparr> = Some (d, st')"
    "copy_inv sm m d s (unat count) (unat count) st'"
    using memcpy_inv[OF refl, of eff count s d sm m] by blast
  have "\<forall>e \<in> set (trace st'). access_ok sm d s (unat count) e"
    using r(2) by (simp add: copy_inv_def list_all_iff)
  then have "\<forall>e \<in> set (trace st'). \<forall>x. reads_byte e x \<longrightarrow>
        in_range s (unat count) x \<or>
        (sm \<and> (\<exists>a. e = LoadW a \<and> a AND WORD_MASK = 0 \<and>
            (\<exists>y. reads_byte e y \<and> in_range s (unat count) y)))"
    using access_ok_reads by blast
  then show ?thesis using r(1) unfolding sm_def by blast
qed

lemma memcpy_trace_example:
  "map_option (trace \<circ> snd) (memcpy False 0x1000 0x2003 16 \<lparr>mem = ucast, trace = []\<rparr>) =
     Some [LoadW 0x2000, LoadW 0x2008, StoreW 0x1000, LoadW 0x2010, StoreW 0x1008]"
  by (simp add: memcpy_def MIN_THRESHOLD_def BYTES_LONG_def WORD_MASK_def align_dest.simps
      shift_merge_def shift_loop.simps copy_remainder.simps Let_def split_def
      load_ulong_def store_ulong_def)

text \<open>
  C2, as stated, fails. With the unaligned-access flag off, a word-aligned destination
  \<open>0x1000\<close>, the source \<open>0x2003\<close> and \<open>count = 16\<close>, the regions are disjoint and the call
  makes exactly the five word accesses below. The first load reads the byte \<open>0x2000\<close>,
  three bytes before the source region \<open>[0x2003, 0x2013)\<close>, and the last load reads the byte
  \<open>0x2017\<close>, past its end.
\<close>

theorem memcpy_reads_counterexample:
  "disjoint 0x1000 0x2003 (unat (16 :: 64 word)) \<and>
   map_option (trace \<circ> snd) (memcpy False 0x1000 0x2003 16 \<lparr>mem = ucast, trace = []\<rparr>) =
     Some [LoadW 0x2000, LoadW 0x2008, StoreW 0x1000, LoadW 0x2010, StoreW 0x1008] \<and>
   reads_byte (LoadW 0x2000) 0x2000 \<and> \<not> in_range 0x2003 (unat (16 :: 64 word)) 0x2000 \<and>
   reads_byte (LoadW 0x2010) 0x2017 \<and> \<not> in_range 0x2003 (unat (16 :: 64 word)) 0x2017"
proof -
  have "disjoint 0x1000 0x2003 (unat (16 :: 64 word))" by (simp add: disjoint_def)
  moreover have "reads_byte (LoadW 0x2000) 0x2000" "reads_byte (LoadW 0x2010) 0x2017"
    by (simp_all add: in_range_def)
  moreover have "\<not> in_range 0x2003 (unat (16 :: 64 word)) 0x2000"
    "\<not> in_range 0x2003 (unat (16 :: 64 word)) 0x2017"
    by (simp_all add: in_range_def)
  ultimately show ?thesis using memcpy_trace_example by blast
qed

theorem memcpy_reads_witness:
  "\<exists>st'. memcpy False 0x1000 0x2003 16 \<lparr>mem = ucast, trace = []\<rparr> = Some (0x1000, st') \<and>
     trace st' = [LoadW 0x2000, LoadW 0x2008, StoreW 0x1000, LoadW 0x2010, StoreW 0x1008] \<and>
     (\<forall>e \<in> set (trace st'). \<forall>x. reads_byte e x \<longrightarrow>
        in_range 0x2003 (unat (16 :: 64 word)) x \<or>
        ((\<not> False \<and> MIN_THRESHOLD \<le> (16 :: 64 word) \<and> (0x2003 - 0x1000 :: 64 word) AND WORD_MASK \<noteq> 0) \<and>
         (\<exists>a. e = LoadW a \<and> a AND WORD_MASK = 0 \<and>
            (\<exists>y. reads_byte e y \<and> in_range 0x2003 (unat (16 :: 64 word)) y))))"
proof -
  obtain st' where r:
    "memcpy False 0x1000 0x2003 16 \<lparr>mem = ucast, trace = []\<rparr> = Some (0x1000, st')"
    "\<forall>e \<in> set (trace st'). \<forall>x. reads_byte e x \<longrightarrow>
        in_range 0x2003 (unat (16 :: 64 word)) x \<or>
        ((\<not> False \<and> MIN_THRESHOLD \<le> (16 :: 64 word) \<and> (0x2003 - 0x1000 :: 64 word) AND WORD_MASK \<noteq> 0) \<and>
         (\<exists>a. e = LoadW a \<and> a AND WORD_MASK = 0 \<and>
            (\<exists>y. reads_byte e y \<and> in_range 0x2003 (unat (16 :: 64 word)) y)))"
    using memcpy_reads[of False "0x1000" "0x2003" 16 ucast] by blast
  have "trace st' = [LoadW 0x2000, LoadW 0x2008, StoreW 0x1000, LoadW 0x2010, StoreW 0x1008]"
    using memcpy_trace_example unfolding r(1) by simp
  then show ?thesis using r by blast
qed

subsection \<open>The threshold (C6)\<close>

lemma mem_copy_remainder:
  "unat count = n \<Longrightarrow> mem (copy_remainder d s count st) = ref_copy (mem st) d s n"
proof (induction n arbitrary: d s count st)
  case 0
  then have "count = 0" by (simp add: unat_eq_0)
  then show ?case by (simp add: copy_remainder.simps)
next
  case (Suc n)
  then have c: "count \<noteq> 0" by auto
  then have "unat (count - 1) = n" using Suc.prems by (simp add: unat_minus_one)
  then have "mem (copy_remainder (d + 1) (s + 1) (count - 1) (copy_u8 d s st)) =
      ref_copy (mem (copy_u8 d s st)) (d + 1) (s + 1) n"
    by (rule Suc.IH)
  then show ?case using c by (subst copy_remainder.simps) simp
qed

lemma trace_copy_remainder:
  "unat count = n \<Longrightarrow> trace (copy_remainder d s count st) = trace st @ byte_trace d s n"
proof (induction n arbitrary: d s count st)
  case 0
  then have "count = 0" by (simp add: unat_eq_0)
  then show ?case by (simp add: copy_remainder.simps)
next
  case (Suc n)
  then have c: "count \<noteq> 0" by auto
  then have "unat (count - 1) = n" using Suc.prems by (simp add: unat_minus_one)
  then have "trace (copy_remainder (d + 1) (s + 1) (count - 1) (copy_u8 d s st)) =
      trace (copy_u8 d s st) @ byte_trace (d + 1) (s + 1) n"
    by (rule Suc.IH)
  then show ?case using c by (subst copy_remainder.simps) simp
qed

lemma byte_trace_bytes: "e \<in> set (byte_trace d s n) \<Longrightarrow> \<not> is_word_access e"
  by (induction n arbitrary: d s) auto

lemma ref_copy_copied:
  assumes "disjoint d s (unat (count :: 64 word))"
  shows "ref_copy m d s (unat count) = copied m d s (unat count)"
proof -
  define st0 where "st0 = \<lparr>mem = m, trace = []\<rparr>"
  have i0: "copy_inv True m d s (unat count) 0 st0" unfolding st0_def by (rule copy_inv_start)
  have N64: "unat count < 2 ^ 64" using unsigned_less[of count, where 'a=nat] by simp
  have "copy_inv True m d s (unat count) (unat count)
      (copy_remainder (d + of_nat 0) (s + of_nat 0) count st0)"
    by (rule copy_remainder_inv[OF i0 _ N64]) simp_all
  then have "mem (copy_remainder d s count st0) = copied m d s (unat count)"
    using assms by (simp add: copy_inv_def)
  then show ?thesis using mem_copy_remainder[OF refl, where count=count and d=d and s=s and st=st0] by (simp add: st0_def)
qed

text \<open>
  C6. Below the threshold \<open>2W\<close> the call is the byte loop alone: it returns, its accesses
  are exactly the byte loads and stores of a byte-by-byte copy in ascending order (no word
  access, no alignment step), and the resulting memory is that of the reference byte copy,
  whatever the regions are. For every count, so for \<open>2W - 1\<close>, which is below the threshold,
  and for \<open>2W\<close>, which is not, a call on disjoint regions returns the memory of the reference
  byte copy.
\<close>

theorem memcpy_threshold:
  "(count < MIN_THRESHOLD \<longrightarrow>
      (\<exists>st'. memcpy eff d s count \<lparr>mem = m, trace = []\<rparr> = Some (d, st') \<and>
         mem st' = ref_copy m d s (unat count) \<and>
         trace st' = byte_trace d s (unat count) \<and>
         (\<forall>e \<in> set (trace st'). \<not> is_word_access e))) \<and>
   (disjoint d s (unat count) \<longrightarrow>
      (\<exists>st'. memcpy eff d s count \<lparr>mem = m, trace = []\<rparr> = Some (d, st') \<and>
         mem st' = ref_copy m d s (unat count))) \<and>
   2 * BYTES_LONG - 1 < MIN_THRESHOLD \<and> \<not> 2 * BYTES_LONG < MIN_THRESHOLD"
proof (intro conjI impI)
  assume "count < MIN_THRESHOLD"
  then have c: "count < 16" by (simp add: MIN_THRESHOLD_def BYTES_LONG_def)
  define st' where "st' = copy_remainder d s count \<lparr>mem = m, trace = []\<rparr>"
  have "memcpy eff d s count \<lparr>mem = m, trace = []\<rparr> = Some (d, st')"
    unfolding st'_def by (rule memcpy_small[OF c])
  moreover have "mem st' = ref_copy m d s (unat count)"
    using mem_copy_remainder[OF refl, where count=count and d=d and s=s and st="\<lparr>mem = m, trace = []\<rparr>"] by (simp add: st'_def)
  moreover have t: "trace st' = byte_trace d s (unat count)"
    using trace_copy_remainder[OF refl, where count=count and d=d and s=s and st="\<lparr>mem = m, trace = []\<rparr>"] by (simp add: st'_def)
  moreover have "\<forall>e \<in> set (trace st'). \<not> is_word_access e"
    unfolding t using byte_trace_bytes by blast
  ultimately show "\<exists>st'. memcpy eff d s count \<lparr>mem = m, trace = []\<rparr> = Some (d, st') \<and>
         mem st' = ref_copy m d s (unat count) \<and>
         trace st' = byte_trace d s (unat count) \<and>
         (\<forall>e \<in> set (trace st'). \<not> is_word_access e)" by blast
next
  assume d: "disjoint d s (unat count)"
  obtain st' where r: "memcpy eff d s count \<lparr>mem = m, trace = []\<rparr> = Some (d, st')"
    "copy_inv True m d s (unat count) (unat count) st'"
    using memcpy_inv[OF refl TrueI] by blast
  have "mem st' = copied m d s (unat count)" using r(2) d by (simp add: copy_inv_def)
  then have "mem st' = ref_copy m d s (unat count)" using ref_copy_copied[OF d] by simp
  then show "\<exists>st'. memcpy eff d s count \<lparr>mem = m, trace = []\<rparr> = Some (d, st') \<and>
         mem st' = ref_copy m d s (unat count)" using r(1) by blast
next
  show "2 * BYTES_LONG - 1 < MIN_THRESHOLD" by (simp add: MIN_THRESHOLD_def BYTES_LONG_def)
  show "\<not> 2 * BYTES_LONG < MIN_THRESHOLD" by (simp add: MIN_THRESHOLD_def BYTES_LONG_def)
qed


theorem memcpy_threshold_witness:
  "(15 :: 64 word) < MIN_THRESHOLD \<and> disjoint 0x1000 0x2003 (unat (15 :: 64 word)) \<and>
   (\<exists>st'. memcpy False 0x1000 0x2003 15 \<lparr>mem = ucast, trace = []\<rparr> = Some (0x1000, st') \<and>
      mem st' = ref_copy ucast 0x1000 0x2003 (unat (15 :: 64 word)) \<and>
      trace st' = byte_trace 0x1000 0x2003 (unat (15 :: 64 word)) \<and>
      (\<forall>e \<in> set (trace st'). \<not> is_word_access e)) \<and>
   \<not> (16 :: 64 word) < MIN_THRESHOLD \<and> disjoint 0x1000 0x2003 (unat (16 :: 64 word)) \<and>
   (\<exists>st'. memcpy False 0x1000 0x2003 16 \<lparr>mem = ucast, trace = []\<rparr> = Some (0x1000, st') \<and>
      mem st' = ref_copy ucast 0x1000 0x2003 (unat (16 :: 64 word)) \<and>
      trace st' = [LoadW 0x2000, LoadW 0x2008, StoreW 0x1000, LoadW 0x2010, StoreW 0x1008])"
proof -
  have a: "(15 :: 64 word) < MIN_THRESHOLD" "\<not> (16 :: 64 word) < MIN_THRESHOLD"
    by (simp_all add: MIN_THRESHOLD_def BYTES_LONG_def)
  have d: "disjoint 0x1000 0x2003 (unat (15 :: 64 word))"
    "disjoint 0x1000 0x2003 (unat (16 :: 64 word))"
    by (simp_all add: disjoint_def)
  have l: "\<exists>st'. memcpy False 0x1000 0x2003 15 \<lparr>mem = ucast, trace = []\<rparr> = Some (0x1000, st') \<and>
      mem st' = ref_copy ucast 0x1000 0x2003 (unat (15 :: 64 word)) \<and>
      trace st' = byte_trace 0x1000 0x2003 (unat (15 :: 64 word)) \<and>
      (\<forall>e \<in> set (trace st'). \<not> is_word_access e)"
    using memcpy_threshold[of 15 False "0x1000" "0x2003" ucast] a(1) by blast
  obtain st' where r:
    "memcpy False 0x1000 0x2003 16 \<lparr>mem = ucast, trace = []\<rparr> = Some (0x1000, st')"
    "mem st' = ref_copy ucast 0x1000 0x2003 (unat (16 :: 64 word))"
    using memcpy_threshold[of 16 False "0x1000" "0x2003" ucast] d(2) by blast
  have "trace st' = [LoadW 0x2000, LoadW 0x2008, StoreW 0x1000, LoadW 0x2010, StoreW 0x1008]"
    using memcpy_trace_example unfolding r(1) by simp
  then show ?thesis using a d l r by blast
qed

subsection \<open>The aligned bulk helper (C5, C7)\<close>

lemma trace_aligned_block: "trace (aligned_block d s st) = trace st @ block_trace d s"
  by (simp add: aligned_block_eq block_trace_def)

lemma memcpy_aligned_trace:
  "unat count = 64 * q \<Longrightarrow>
   \<exists>st'. memcpy_aligned d s count st = Some st' \<and> trace st' = trace st @ aligned_trace d s q"
proof (induction q arbitrary: d s count st)
  case 0
  then have "count = 0" by (simp add: unat_eq_0)
  then show ?case by (subst memcpy_aligned.simps) simp
next
  case (Suc q)
  have c: "0 < count" using Suc.prems by (simp add: word_less_nat_alt)
  have "(64::64 word) \<le> count" using Suc.prems by (simp add: word_le_nat_alt)
  then have u: "unat (count - 64) = 64 * q" using Suc.prems by (simp add: unat_sub)
  obtain st' where r:
    "memcpy_aligned (d + 64) (s + 64) (count - 64) (aligned_block d s st) = Some st'"
    "trace st' = trace (aligned_block d s st) @ aligned_trace (d + 64) (s + 64) q"
    using Suc.IH[OF u] by blast
  have "memcpy_aligned d s count st = Some st'"
    using c r(1) by (subst memcpy_aligned.simps) (simp add: BYTES_LONG_def)
  then show ?case using r(2) by (simp add: trace_aligned_block)
qed

lemma unat_sub64_mod: "unat ((count::64 word) - 64) mod 64 = unat count mod 64"
proof -
  have "unat (count - 64) = (if 64 \<le> unat count then unat count - 64 else unat count + 2 ^ 64 - 64)"
    unfolding unat_sub_if_size[of count 64] word_size by simp
  moreover have "(unat count + 2 ^ 64 - 64) mod 64 = unat count mod 64"
  proof -
    have "unat count + 2 ^ 64 - 64 = unat count + 64 * (2 ^ 58 - 1)" by simp
    then show ?thesis by (simp only: mod_mult_self2)
  qed
  moreover have "64 \<le> unat count \<Longrightarrow> (unat count - 64) mod 64 = unat count mod 64"
    by (simp add: le_mod_geq)
  ultimately show ?thesis by simp
qed

lemma memcpy_aligned_returns:
  assumes "memcpy_aligned d s count st = Some st'"
  shows "unat count mod 64 = 0"
proof -
  have step: "unat c mod 64 = 0"
    if ih: "\<And>a b c d y. f a b c d = Some y \<Longrightarrow> unat c mod 64 = 0"
      and eq: "(if 0 < c then f (a + 8 * BYTES_LONG) (b + 8 * BYTES_LONG) (c - BYTES_LONG * 8)
                  (aligned_block a b t) else Some t) = Some y"
    for f :: "addr \<Rightarrow> addr \<Rightarrow> size_t \<Rightarrow> state \<Rightarrow> state option" and a b c t y
  proof (cases "0 < c")
    case True
    then have "f (a + 8 * BYTES_LONG) (b + 8 * BYTES_LONG) (c - BYTES_LONG * 8)
        (aligned_block a b t) = Some y"
      using eq by simp
    then have "unat (c - BYTES_LONG * 8) mod 64 = 0" by (rule ih)
    then show ?thesis using unat_sub64_mod[of c] by (simp add: BYTES_LONG_def)
  next
    case False
    then have "c = 0" by (simp add: word_greater_zero_iff)
    then show ?thesis by simp
  qed
  show ?thesis
    by (rule memcpy_aligned.raw_induct[where P = "\<lambda>a b c t y. unat c mod 64 = 0", OF step assms])
qed

lemma memcpy_aligned_block_multiple:
  assumes "unat count = 64 * q"
  shows "\<exists>st'. memcpy_aligned dest src count \<lparr>mem = m, trace = []\<rparr> = Some st' \<and>
           trace st' = aligned_trace dest src q \<and>
           (\<forall>x. \<not> in_range dest (unat count) x \<longrightarrow> mem st' x = m x) \<and>
           (disjoint dest src (unat count) \<longrightarrow>
              (\<forall>i < unat count. mem st' (dest + of_nat i) = m (src + of_nat i)))"
proof -
  define st0 where "st0 = \<lparr>mem = m, trace = []\<rparr>"
  have i0: "copy_inv True m dest src (unat count) 0 st0" unfolding st0_def by (rule copy_inv_start)
  have N64: "unat count < 2 ^ 64" using unsigned_less[of count, where 'a=nat] by simp
  have le: "0 + 64 * q \<le> unat count" using assms by simp
  obtain st' where r:
    "memcpy_aligned (dest + of_nat 0) (src + of_nat 0) count st0 = Some st'"
    "copy_inv True m dest src (unat count) (0 + 64 * q) st'"
    using memcpy_aligned_inv[OF i0 N64 le assms] by blast
  have r1: "memcpy_aligned dest src count st0 = Some st'" using r(1) by simp
  have i: "copy_inv True m dest src (unat count) (unat count) st'" using r(2) assms by simp
  have t: "trace st' = aligned_trace dest src q"
    using memcpy_aligned_trace[OF assms, of dest src st0] r1 by (simp add: st0_def)
  have f: "\<forall>x. \<not> in_range dest (unat count) x \<longrightarrow> mem st' x = m x"
    using i by (simp add: copy_inv_def)
  have c: "\<forall>i < unat count. mem st' (dest + of_nat i) = m (src + of_nat i)"
    if "disjoint dest src (unat count)"
  proof -
    have "mem st' = copied m dest src (unat count)" using i that by (simp add: copy_inv_def)
    then show ?thesis using unat_count_lt[of _ count] by (simp add: copied_dest)
  qed
  show ?thesis using r1 t f c unfolding st0_def by blast
qed

text \<open>
  C5. When the byte count is an exact multiple of the block size (8 words of \<open>W\<close> bytes),
  the aligned bulk helper returns; its accesses are those of \<open>count / (8 W)\<close> iterations,
  each of 8 word loads followed by 8 word stores; nothing outside the \<open>count\<close> destination
  bytes changes and, on disjoint regions, these hold the source bytes. The helper does not
  check the precondition: a call that returns was given a multiple of the block size, so
  on any other count the call never returns.
\<close>

theorem memcpy_aligned_multiple:
  "(unat count mod (8 * unat BYTES_LONG) = 0 \<longrightarrow>
      (\<exists>st'. memcpy_aligned dest src count \<lparr>mem = m, trace = []\<rparr> = Some st' \<and>
         trace st' = aligned_trace dest src (unat count div (8 * unat BYTES_LONG)) \<and>
         (\<forall>x. \<not> in_range dest (unat count) x \<longrightarrow> mem st' x = m x) \<and>
         (disjoint dest src (unat count) \<longrightarrow>
            (\<forall>i < unat count. mem st' (dest + of_nat i) = m (src + of_nat i))))) \<and>
   (unat count mod (8 * unat BYTES_LONG) \<noteq> 0 \<longrightarrow> memcpy_aligned dest src count st = None)"
proof (intro conjI impI)
  assume "unat count mod (8 * unat BYTES_LONG) = 0"
  then have "64 dvd unat count" by (simp add: BYTES_LONG_def mod_eq_0_iff_dvd)
  then have "unat count = 64 * (unat count div 64)" by simp
  then show "\<exists>st'. memcpy_aligned dest src count \<lparr>mem = m, trace = []\<rparr> = Some st' \<and>
         trace st' = aligned_trace dest src (unat count div (8 * unat BYTES_LONG)) \<and>
         (\<forall>x. \<not> in_range dest (unat count) x \<longrightarrow> mem st' x = m x) \<and>
         (disjoint dest src (unat count) \<longrightarrow>
            (\<forall>i < unat count. mem st' (dest + of_nat i) = m (src + of_nat i)))"
    using memcpy_aligned_block_multiple[of count "unat count div 64" dest src m]
    by (simp add: BYTES_LONG_def)
next
  assume "unat count mod (8 * unat BYTES_LONG) \<noteq> 0"
  then have "unat count mod 64 \<noteq> 0" by (simp add: BYTES_LONG_def)
  then show "memcpy_aligned dest src count st = None"
    using memcpy_aligned_returns[of dest src count st] by (cases "memcpy_aligned dest src count st") auto
qed

theorem memcpy_aligned_multiple_witness:
  "unat (128 :: 64 word) mod (8 * unat BYTES_LONG) = 0 \<and>
   disjoint 0x1000 0x2000 (unat (128 :: 64 word)) \<and>
   (\<exists>st'. memcpy_aligned 0x1000 0x2000 128 \<lparr>mem = ucast, trace = []\<rparr> = Some st' \<and>
      trace st' = block_trace 0x1000 0x2000 @ block_trace 0x1040 0x2040 \<and>
      (\<forall>i < unat (128 :: 64 word). mem st' (0x1000 + of_nat i) = ucast (0x2000 + of_nat i :: 64 word))) \<and>
   unat (100 :: 64 word) mod (8 * unat BYTES_LONG) \<noteq> 0 \<and>
   memcpy_aligned 0x1000 0x2000 100 \<lparr>mem = ucast, trace = []\<rparr> = None"
proof -
  have a: "unat (128 :: 64 word) mod (8 * unat BYTES_LONG) = 0"
    "unat (100 :: 64 word) mod (8 * unat BYTES_LONG) \<noteq> 0"
    by (simp_all add: BYTES_LONG_def)
  have d: "disjoint 0x1000 0x2000 (unat (128 :: 64 word))" by (simp add: disjoint_def)
  have q: "aligned_trace 0x1000 0x2000 (unat (128 :: 64 word) div (8 * unat BYTES_LONG)) =
      block_trace 0x1000 0x2000 @ block_trace 0x1040 0x2040"
  proof -
    have "unat (128 :: 64 word) div (8 * unat BYTES_LONG) = Suc (Suc 0)"
      by (simp add: BYTES_LONG_def)
    then show ?thesis by (simp only: aligned_trace.simps) simp
  qed
  have "\<exists>st'. memcpy_aligned 0x1000 0x2000 128 \<lparr>mem = ucast, trace = []\<rparr> = Some st' \<and>
      trace st' = block_trace 0x1000 0x2000 @ block_trace 0x1040 0x2040 \<and>
      (\<forall>i < unat (128 :: 64 word). mem st' (0x1000 + of_nat i) = ucast (0x2000 + of_nat i :: 64 word))"
    using memcpy_aligned_multiple[of 128 "0x1000" "0x2000" ucast "\<lparr>mem = ucast, trace = []\<rparr>"] a(1) d
    unfolding q by blast
  moreover have "memcpy_aligned 0x1000 0x2000 100 \<lparr>mem = ucast, trace = []\<rparr> = None"
    using memcpy_aligned_multiple[of 100 "0x1000" "0x2000" ucast "\<lparr>mem = ucast, trace = []\<rparr>"] a(2)
    by blast
  ultimately show ?thesis using a d by blast
qed

text \<open>
  C7. On the \<open>distance = 0\<close> path, \<open>aligned_count = count & ~(8 W - 1)\<close> is the largest
  multiple of the block size \<open>8 W\<close> that is at most \<open>count\<close>. The aligned bulk helper, called
  with it, returns after \<open>aligned_count / (8 W)\<close> iterations and copies exactly that many
  bytes; both pointers advance by \<open>aligned_count\<close>, and the count left for the byte-wise
  tail is \<open>count mod (8 W)\<close>.
\<close>

theorem aligned_path_count:
  "\<exists>st'. aligned_path d s count \<lparr>mem = m, trace = []\<rparr> =
       Some (d + (count AND NOT (BYTES_LONG * 8 - 1)), s + (count AND NOT (BYTES_LONG * 8 - 1)),
             count AND (BYTES_LONG * 8 - 1), st') \<and>
     memcpy_aligned d s (count AND NOT (BYTES_LONG * 8 - 1)) \<lparr>mem = m, trace = []\<rparr> = Some st' \<and>
     trace st' = aligned_trace d s (unat count div (8 * unat BYTES_LONG)) \<and>
     (\<forall>x. \<not> in_range d (unat (count AND NOT (BYTES_LONG * 8 - 1))) x \<longrightarrow> mem st' x = m x) \<and>
     (disjoint d s (unat (count AND NOT (BYTES_LONG * 8 - 1))) \<longrightarrow>
        (\<forall>i < unat (count AND NOT (BYTES_LONG * 8 - 1)). mem st' (d + of_nat i) = m (s + of_nat i))) \<and>
     unat (count AND NOT (BYTES_LONG * 8 - 1)) = 8 * unat BYTES_LONG * (unat count div (8 * unat BYTES_LONG)) \<and>
     unat (count AND NOT (BYTES_LONG * 8 - 1)) \<le> unat count \<and>
     (\<forall>n. 8 * unat BYTES_LONG dvd n \<and> n \<le> unat count \<longrightarrow>
          n \<le> unat (count AND NOT (BYTES_LONG * 8 - 1))) \<and>
     unat (count AND (BYTES_LONG * 8 - 1)) = unat count mod (8 * unat BYTES_LONG)"
proof -
  define ac where "ac = count AND NOT 63"
  have e: "count AND NOT (BYTES_LONG * 8 - 1) = ac" "count AND (BYTES_LONG * 8 - 1) = count AND 63"
    "8 * unat BYTES_LONG = 64"
    by (simp_all add: BYTES_LONG_def ac_def)
  have u: "unat ac = 64 * (unat count div 64)" unfolding ac_def by (rule unat_and_not_63)
  obtain st' where r: "memcpy_aligned d s ac \<lparr>mem = m, trace = []\<rparr> = Some st'"
    "trace st' = aligned_trace d s (unat count div 64)"
    "\<forall>x. \<not> in_range d (unat ac) x \<longrightarrow> mem st' x = m x"
    "disjoint d s (unat ac) \<longrightarrow> (\<forall>i < unat ac. mem st' (d + of_nat i) = m (s + of_nat i))"
    using memcpy_aligned_block_multiple[OF u, of d s m] by blast
  have p: "aligned_path d s count \<lparr>mem = m, trace = []\<rparr> = Some (d + ac, s + ac, count AND 63, st')"
    using r(1) by (simp add: aligned_path_def BYTES_LONG_def ac_def Let_def)
  have le: "unat ac \<le> unat count" unfolding u by simp
  have mx: "\<forall>n. 64 dvd n \<and> n \<le> unat count \<longrightarrow> n \<le> unat ac"
  proof (intro allI impI)
    fix n assume n: "64 dvd n \<and> n \<le> unat count"
    then obtain j where j: "n = 64 * j" by (auto elim: dvdE)
    then have "j \<le> unat count div 64" using n by (simp add: less_eq_div_iff_mult_less_eq mult.commute)
    then show "n \<le> unat ac" unfolding u j by simp
  qed
  have md: "unat (count AND 63) = unat count mod 64" by (rule unat_and63)
  show ?thesis unfolding e using p r u le mx md by blast
qed

theorem aligned_path_count_witness:
  "\<exists>st'. aligned_path 0x1000 0x2000 200 \<lparr>mem = ucast, trace = []\<rparr> =
       Some (0x10C0, 0x20C0, 8, st') \<and>
     memcpy_aligned 0x1000 0x2000 192 \<lparr>mem = ucast, trace = []\<rparr> = Some st' \<and>
     disjoint 0x1000 0x2000 192 \<and>
     (\<forall>i < 192. mem st' (0x1000 + of_nat i) = ucast (0x2000 + of_nat i :: 64 word)) \<and>
     \<not> in_range 0x1000 192 0x10C0 \<and> mem st' 0x10C0 = 0xC0 \<and>
     (8 * unat BYTES_LONG dvd 128 \<and> 128 \<le> unat (200 :: 64 word)) \<and> (128::nat) \<le> 192"
proof -
  have v: "(200 :: 64 word) AND NOT (BYTES_LONG * 8 - 1) = 192"
    "(200 :: 64 word) AND (BYTES_LONG * 8 - 1) = 8"
    by (simp_all add: BYTES_LONG_def)
  have d: "disjoint 0x1000 0x2000 192" by (simp add: disjoint_def)
  have n: "\<not> in_range 0x1000 192 0x10C0" by (simp add: in_range_def)
  have h: "8 * unat BYTES_LONG dvd 128 \<and> 128 \<le> unat (200 :: 64 word)"
    by (simp add: BYTES_LONG_def)
  show ?thesis
    using aligned_path_count[of "0x1000" "0x2000" 200 ucast] d n h unfolding v by auto
qed

subsection \<open>The prefix loop and the shift-merge loop (C10)\<close>

lemma align_dest_iter:
  "p = (8 - unat (d AND 7)) mod 8 \<Longrightarrow>
   \<exists>st'. align_dest d s count st = (d + of_nat p, s + of_nat p, count - of_nat p, st') \<and>
         trace st' = trace st @ byte_trace d s p \<and> (d + of_nat p) AND 7 = 0"
proof (induction p arbitrary: d s count st)
  case 0
  then have z: "d AND 7 = 0" by (simp add: to_boundary_0)
  then have "align_dest d s count st = (d, s, count, st)"
    by (subst align_dest.simps) (simp add: WORD_MASK_def BYTES_LONG_def)
  then show ?case using z by simp
next
  case (Suc p)
  have a: "d AND 7 \<noteq> 0" using Suc.prems to_boundary_0[of d] by auto
  have "Suc ((8 - unat ((d + 1) AND 7)) mod 8) = Suc p"
    using to_boundary_Suc[OF a] Suc.prems by (simp only:)
  then have p: "p = (8 - unat ((d + 1) AND 7)) mod 8" by (simp only: nat.inject)
  obtain st' where r:
    "align_dest (d + 1) (s + 1) (count - 1) (copy_u8 d s st) =
       (d + 1 + of_nat p, s + 1 + of_nat p, count - 1 - of_nat p, st')"
    "trace st' = trace (copy_u8 d s st) @ byte_trace (d + 1) (s + 1) p"
    "(d + 1 + of_nat p) AND 7 = 0"
    using Suc.IH[OF p] by blast
  have e: "d + of_nat (Suc p) = d + 1 + of_nat p" by simp
  have "align_dest d s count st = align_dest (d + 1) (s + 1) (count - 1) (copy_u8 d s st)"
    using a by (subst align_dest.simps) (simp add: WORD_MASK_def BYTES_LONG_def)
  then have "align_dest d s count st =
      (d + of_nat (Suc p), s + of_nat (Suc p), count - of_nat (Suc p), st')"
    using r(1) by (simp add: algebra_simps)
  then show ?case using r(2,3) unfolding e by simp
qed

lemma unat_div8_0: "unat (count::64 word) div 8 = 0 \<Longrightarrow> \<not> 8 \<le> count"
  by (simp add: word_le_nat_alt div_eq_0_iff)

lemma shift_loop_result:
  "q = unat count div 8 \<Longrightarrow>
   \<exists>st'. shift_loop dist d sa count nw st =
           (d + of_nat (8 * q), sa + of_nat (8 * q), count - of_nat (8 * q), st') \<and>
         trace st' = trace st @ shift_trace d sa q"
proof (induction q arbitrary: d sa count nw st)
  case 0
  then have "\<not> 8 \<le> count" by (simp add: unat_div8_0)
  then show ?case by (simp add: shift_loop_exit)
next
  case (Suc q)
  have g: "8 \<le> unat count"
  proof (rule ccontr)
    assume "\<not> 8 \<le> unat count"
    then have "unat count div 8 = 0" by simp
    then show False using Suc.prems by simp
  qed
  then have c: "8 \<le> count" by (simp add: word_le_nat_alt)
  have "unat (count - 8) = unat count - 8" using g by (rule unat_count_sub8[OF refl])
  then have q: "q = unat (count - 8) div 8" using Suc.prems g by (simp add: le_div_geq)
  define st2 where "st2 = store_ulong d (merge_words dist nw (word_at (mem st) (sa + 8)))
      (snd (load_ulong (sa + 8) st))"
  obtain st' where r:
    "shift_loop dist (d + 8) (sa + 8) (count - 8) (word_at (mem st) (sa + 8)) st2 =
       (d + 8 + of_nat (8 * q), sa + 8 + of_nat (8 * q), count - 8 - of_nat (8 * q), st')"
    "trace st' = trace st2 @ shift_trace (d + 8) (sa + 8) q"
    using Suc.IH[OF q] by blast
  have e: "(of_nat (8 * Suc q) :: 64 word) = 8 + of_nat (8 * q)" by simp
  have "shift_loop dist d sa count nw st =
      (d + of_nat (8 * Suc q), sa + of_nat (8 * Suc q), count - of_nat (8 * Suc q), st')"
    unfolding shift_loop_step[OF c] e using r(1) by (simp add: st2_def algebra_simps)
  moreover have "trace st' = trace st @ shift_trace d sa (Suc q)"
    using r(2) by (simp add: st2_def)
  ultimately show ?case by blast
qed

lemma shift_merge_result:
  "q = unat count div 8 \<Longrightarrow>
   \<exists>st'. shift_merge dist d s count st =
           (d + of_nat (8 * q), s + of_nat (8 * q), count - of_nat (8 * q), st') \<and>
         trace st' = trace st @ LoadW (s - of_nat dist) # shift_trace d (s - of_nat dist) q"
proof -
  assume q: "q = unat count div 8"
  obtain st' where r:
    "shift_loop dist d (s - of_nat dist) count (word_at (mem st) (s - of_nat dist))
        (snd (load_ulong (s - of_nat dist) st)) =
       (d + of_nat (8 * q), s - of_nat dist + of_nat (8 * q), count - of_nat (8 * q), st')"
    "trace st' = trace (snd (load_ulong (s - of_nat dist) st)) @ shift_trace d (s - of_nat dist) q"
    using shift_loop_result[OF q] by blast
  have "shift_merge dist d s count st =
      (d + of_nat (8 * q), s + of_nat (8 * q), count - of_nat (8 * q), st')"
    using r(1) by (simp add: shift_merge_def Let_def split_def)
  then show ?thesis using r(2) by simp
qed

lemma prefix_count:
  assumes "MIN_THRESHOLD \<le> count" "p \<le> 7"
  shows "unat (count - of_nat p) = unat count - p" "9 \<le> unat count - p"
proof -
  have c16: "16 \<le> unat count"
    using assms(1) by (simp add: MIN_THRESHOLD_def BYTES_LONG_def word_le_nat_alt)
  have pw: "unat (of_nat p :: 64 word) = p" using assms(2) by (simp add: unat_of_nat64)
  then have "(of_nat p :: 64 word) \<le> count" using assms(2) c16 by (simp add: word_le_nat_alt)
  then show "unat (count - of_nat p) = unat count - p" using pw by (simp add: unat_sub)
  show "9 \<le> unat count - p" using assms(2) c16 by simp
qed

lemma unat_sub_mult8:
  fixes c :: "64 word"
  shows "unat (c - of_nat (8 * (unat c div 8))) = unat c mod 8"
proof -
  have le: "8 * (unat c div 8) \<le> unat c" by simp
  have b: "8 * (unat c div 8) < 2 ^ 64" using le unsigned_less[of c, where 'a=nat] by simp
  have u: "unat (of_nat (8 * (unat c div 8)) :: 64 word) = 8 * (unat c div 8)"
    by (rule unat_of_nat64[OF b])
  then have "(of_nat (8 * (unat c div 8)) :: 64 word) \<le> c" using le by (simp only: word_le_nat_alt)
  then have "unat (c - of_nat (8 * (unat c div 8))) =
      unat c - unat (of_nat (8 * (unat c div 8)) :: 64 word)"
    by (rule unat_sub)
  then have "unat (c - of_nat (8 * (unat c div 8))) = unat c - 8 * (unat c div 8)"
    by (simp only: u)
  then show ?thesis by (simp add: minus_mult_div_eq_mod)
qed

lemma memcpy_shift_trace:
  assumes "MIN_THRESHOLD \<le> count" "p = (8 - unat (d AND 7)) mod 8"
    and "dist = unat ((s + of_nat p) AND 7)" "dist \<noteq> 0"
    and "q = (unat count - p) div 8"
  shows "\<exists>st'. memcpy False d s count st = Some (d, st') \<and>
           trace st' = trace st @ byte_trace d s p @
             LoadW (s + of_nat p - of_nat dist) #
             shift_trace (d + of_nat p) (s + of_nat p - of_nat dist) q @
             byte_trace (d + of_nat p + of_nat (8 * q)) (s + of_nat p + of_nat (8 * q))
               ((unat count - p) mod 8)"
    and "0 < q"
proof -
  have p7: "p \<le> 7" unfolding assms(2) by (rule to_boundary_le7)
  note pc = prefix_count[OF assms(1) p7]
  show "0 < q" unfolding assms(5) using pc(2) by simp
  have nl: "\<not> count < 16"
    using assms(1) by (simp add: MIN_THRESHOLD_def BYTES_LONG_def not_less)
  obtain st1 where a:
    "align_dest d s count st = (d + of_nat p, s + of_nat p, count - of_nat p, st1)"
    "trace st1 = trace st @ byte_trace d s p"
    using align_dest_iter[OF assms(2)] by blast
  have q: "q = unat (count - of_nat p) div 8" unfolding pc(1) by (rule assms(5))
  obtain st2 where b:
    "shift_merge dist (d + of_nat p) (s + of_nat p) (count - of_nat p) st1 =
       (d + of_nat p + of_nat (8 * q), s + of_nat p + of_nat (8 * q),
        count - of_nat p - of_nat (8 * q), st2)"
    "trace st2 = trace st1 @ LoadW (s + of_nat p - of_nat dist) #
        shift_trace (d + of_nat p) (s + of_nat p - of_nat dist) q"
    using shift_merge_result[OF q] by blast
  have nz: "unat ((s + of_nat p) AND 7) \<noteq> 0" using assms(3,4) by simp
  have m: "memcpy False d s count st =
      Some (d, copy_remainder (d + of_nat p + of_nat (8 * q)) (s + of_nat p + of_nat (8 * q))
                (count - of_nat p - of_nat (8 * q)) st2)"
    by (rule memcpy_big_shift[OF nl a(1) nz b(1)[unfolded assms(3)]])
  have u: "unat (count - of_nat p - of_nat (8 * q)) = (unat count - p) mod 8"
    unfolding q using unat_sub_mult8[of "count - of_nat p"] pc(1) by simp
  have "trace (copy_remainder (d + of_nat p + of_nat (8 * q)) (s + of_nat p + of_nat (8 * q))
                (count - of_nat p - of_nat (8 * q)) st2) =
      trace st2 @ byte_trace (d + of_nat p + of_nat (8 * q)) (s + of_nat p + of_nat (8 * q))
        ((unat count - p) mod 8)"
    by (rule trace_copy_remainder[OF u])
  then show "\<exists>st'. memcpy False d s count st = Some (d, st') \<and>
           trace st' = trace st @ byte_trace d s p @
             LoadW (s + of_nat p - of_nat dist) #
             shift_trace (d + of_nat p) (s + of_nat p - of_nat dist) q @
             byte_trace (d + of_nat p + of_nat (8 * q)) (s + of_nat p + of_nat (8 * q))
               ((unat count - p) mod 8)"
    using m a(2) b(2) by simp
qed

lemma shift_trace_pos:
  "0 < q \<Longrightarrow> shift_trace d sa q = LoadW (sa + 8) # StoreW d # shift_trace (d + 8) (sa + 8) (q - 1)"
  by (cases q) simp_all

text \<open>
  C10. When \<open>count \<ge> 2W\<close>, the prefix loop (run when the unaligned-access flag is off) makes
  \<open>p \<le> W - 1\<close> iterations, one byte copy each, and stops with the destination pointer
  word-aligned. The count does not wrap: it is \<open>count - p\<close> as a number, at least \<open>W + 1\<close>, so
  the guard \<open>count \<ge> W\<close> of the shift-merge loop holds on entry. The loop then makes its
  first iteration: the shift-merge branch, entered in the state the prefix loop leaves, logs
  the load of the word at the rewound source pointer \<open>sa\<close>, then the load of the word at
  \<open>sa + W\<close> and the store of the word at the aligned destination; so does the whole call when
  the distance is not zero.
\<close>

theorem align_dest_bound:
  assumes "MIN_THRESHOLD \<le> count"
  shows "\<exists>p st'. align_dest d s count st = (d + of_nat p, s + of_nat p, count - of_nat p, st') \<and>
           p \<le> unat BYTES_LONG - 1 \<and>
           trace st' = trace st @ byte_trace d s p \<and>
           (d + of_nat p) AND WORD_MASK = 0 \<and>
           unat (count - of_nat p) = unat count - p \<and>
           unat BYTES_LONG + 1 \<le> unat (count - of_nat p) \<and>
           BYTES_LONG \<le> count - of_nat p \<and>
           (\<forall>dist. \<exists>d2 s2 c2 st2.
              shift_merge dist (d + of_nat p) (s + of_nat p) (count - of_nat p) st' =
                (d2, s2, c2, st2) \<and>
              trace st2 = trace st' @
                LoadW (s + of_nat p - of_nat dist) #
                LoadW (s + of_nat p - of_nat dist + BYTES_LONG) #
                StoreW (d + of_nat p) #
                shift_trace (d + of_nat p + BYTES_LONG) (s + of_nat p - of_nat dist + BYTES_LONG)
                  ((unat count - p) div unat BYTES_LONG - 1)) \<and>
           (unat ((s + of_nat p) AND WORD_MASK) \<noteq> 0 \<longrightarrow>
              (\<exists>st'' rest. memcpy False d s count st = Some (d, st'') \<and>
                 trace st'' = trace st @ byte_trace d s p @
                   LoadW (s + of_nat p - of_nat (unat ((s + of_nat p) AND WORD_MASK))) #
                   LoadW (s + of_nat p - of_nat (unat ((s + of_nat p) AND WORD_MASK)) + BYTES_LONG) #
                   StoreW (d + of_nat p) # rest))"
proof -
  define p where "p = (8 - unat (d AND 7)) mod 8"
  obtain st' where r:
    "align_dest d s count st = (d + of_nat p, s + of_nat p, count - of_nat p, st')"
    "trace st' = trace st @ byte_trace d s p"
    and al: "(d + of_nat p) AND 7 = 0"
    using align_dest_iter[OF p_def] by blast
  have p7: "p \<le> 7" unfolding p_def by (rule to_boundary_le7)
  note pc = prefix_count[OF assms p7]
  have g9: "9 \<le> unat (count - of_nat p)" using pc by simp
  then have g8: "8 \<le> count - of_nat p" by (simp add: word_le_nat_alt)
  define q where "q = (unat count - p) div 8"
  have q0: "0 < q" unfolding q_def using pc(2) by simp
  have qc: "q = unat (count - of_nat p) div 8" unfolding pc(1) by (rule q_def)
  have sm: "\<exists>d2 s2 c2 st2.
              shift_merge dist (d + of_nat p) (s + of_nat p) (count - of_nat p) st' =
                (d2, s2, c2, st2) \<and>
              trace st2 = trace st' @
                LoadW (s + of_nat p - of_nat dist) #
                LoadW (s + of_nat p - of_nat dist + 8) #
                StoreW (d + of_nat p) #
                shift_trace (d + of_nat p + 8) (s + of_nat p - of_nat dist + 8) (q - 1)" for dist
    using shift_merge_result[OF qc, of dist "d + of_nat p" "s + of_nat p" st']
    unfolding shift_trace_pos[OF q0] by blast
  have mc: "\<exists>st'' rest. memcpy False d s count st = Some (d, st'') \<and>
                 trace st'' = trace st @ byte_trace d s p @
                   LoadW (s + of_nat p - of_nat (unat ((s + of_nat p) AND 7))) #
                   LoadW (s + of_nat p - of_nat (unat ((s + of_nat p) AND 7)) + 8) #
                   StoreW (d + of_nat p) # rest"
    if nz: "unat ((s + of_nat p) AND 7) \<noteq> 0"
    using memcpy_shift_trace(1)[OF assms p_def refl nz q_def, of st]
    unfolding shift_trace_pos[OF q0] by auto
  show ?thesis
    apply (rule exI[of _ p], rule exI[of _ st'])
    using r p7 al pc g9 g8 sm mc
    by (simp add: BYTES_LONG_def WORD_MASK_def q_def)
qed


lemma memcpy_prefix_example:
  "map_option (trace \<circ> snd) (memcpy False 0x1003 0x2000 16 \<lparr>mem = ucast, trace = []\<rparr>) =
     Some [LoadB 0x2000, StoreB 0x1003, LoadB 0x2001, StoreB 0x1004, LoadB 0x2002, StoreB 0x1005,
           LoadB 0x2003, StoreB 0x1006, LoadB 0x2004, StoreB 0x1007,
           LoadW 0x2000, LoadW 0x2008, StoreW 0x1008,
           LoadB 0x200D, StoreB 0x1010, LoadB 0x200E, StoreB 0x1011, LoadB 0x200F, StoreB 0x1012]"
  by (simp add: memcpy_def MIN_THRESHOLD_def BYTES_LONG_def WORD_MASK_def align_dest.simps
      shift_merge_def shift_loop.simps copy_remainder.simps Let_def split_def
      load_ulong_def store_ulong_def copy_u8_def load_u8_def store_u8_def)

theorem align_dest_bound_witness:
  "MIN_THRESHOLD \<le> (16 :: 64 word) \<and>
   fst (align_dest 0x1003 0x2000 16 \<lparr>mem = ucast, trace = []\<rparr>) = 0x1008 \<and>
   fst (snd (snd (align_dest 0x1003 0x2000 16 \<lparr>mem = ucast, trace = []\<rparr>))) = 11 \<and>
   map_option (trace \<circ> snd) (memcpy False 0x1003 0x2000 16 \<lparr>mem = ucast, trace = []\<rparr>) =
     Some [LoadB 0x2000, StoreB 0x1003, LoadB 0x2001, StoreB 0x1004, LoadB 0x2002, StoreB 0x1005,
           LoadB 0x2003, StoreB 0x1006, LoadB 0x2004, StoreB 0x1007,
           LoadW 0x2000, LoadW 0x2008, StoreW 0x1008,
           LoadB 0x200D, StoreB 0x1010, LoadB 0x200E, StoreB 0x1011, LoadB 0x200F, StoreB 0x1012] \<and>
   (\<exists>p st'. align_dest 0x1003 0x2000 (16 :: 64 word) \<lparr>mem = ucast, trace = []\<rparr> = (0x1003 + of_nat p, 0x2000 + of_nat p, (16 :: 64 word) - of_nat p, st') \<and>
           p \<le> unat BYTES_LONG - 1 \<and>
           trace st' = trace \<lparr>mem = ucast, trace = []\<rparr> @ byte_trace 0x1003 0x2000 p \<and>
           (0x1003 + of_nat p) AND WORD_MASK = 0 \<and>
           unat ((16 :: 64 word) - of_nat p) = unat (16 :: 64 word) - p \<and>
           unat BYTES_LONG + 1 \<le> unat ((16 :: 64 word) - of_nat p) \<and>
           BYTES_LONG \<le> (16 :: 64 word) - of_nat p \<and>
           (\<forall>dist. \<exists>d2 s2 c2 st2.
              shift_merge dist (0x1003 + of_nat p) (0x2000 + of_nat p) ((16 :: 64 word) - of_nat p) st' =
                (d2, s2, c2, st2) \<and>
              trace st2 = trace st' @
                LoadW (0x2000 + of_nat p - of_nat dist) #
                LoadW (0x2000 + of_nat p - of_nat dist + BYTES_LONG) #
                StoreW (0x1003 + of_nat p) #
                shift_trace (0x1003 + of_nat p + BYTES_LONG) (0x2000 + of_nat p - of_nat dist + BYTES_LONG)
                  ((unat (16 :: 64 word) - p) div unat BYTES_LONG - 1)) \<and>
           (unat ((0x2000 + of_nat p) AND WORD_MASK) \<noteq> 0 \<longrightarrow>
              (\<exists>st'' rest. memcpy False 0x1003 0x2000 (16 :: 64 word) \<lparr>mem = ucast, trace = []\<rparr> = Some (0x1003, st'') \<and>
                 trace st'' = trace \<lparr>mem = ucast, trace = []\<rparr> @ byte_trace 0x1003 0x2000 p @
                   LoadW (0x2000 + of_nat p - of_nat (unat ((0x2000 + of_nat p) AND WORD_MASK))) #
                   LoadW (0x2000 + of_nat p - of_nat (unat ((0x2000 + of_nat p) AND WORD_MASK)) + BYTES_LONG) #
                   StoreW (0x1003 + of_nat p) # rest)))"
proof -
  have h: "MIN_THRESHOLD \<le> (16 :: 64 word)" by (simp add: MIN_THRESHOLD_def BYTES_LONG_def)
  have v: "fst (align_dest 0x1003 0x2000 16 \<lparr>mem = ucast, trace = []\<rparr>) = 0x1008"
    "fst (snd (snd (align_dest 0x1003 0x2000 16 \<lparr>mem = ucast, trace = []\<rparr>))) = 11"
    by (simp_all add: align_dest.simps WORD_MASK_def BYTES_LONG_def)
  note t = align_dest_bound[OF h, of "0x1003" "0x2000" "\<lparr>mem = ucast, trace = []\<rparr>"]
  show ?thesis
    by (intro conjI; (rule h | rule v(1) | rule v(2) | rule memcpy_prefix_example | rule t))
qed

subsection \<open>The merged word (C3)\<close>

lemma merge_window_byte:
  assumes "0 < dist" "dist < 8" "i < 8"
  shows "byte_of (merge_words dist (word_at m sa) (word_at m (sa + 8))) i = m (sa + of_nat dist + of_nat i)"
proof (cases "i + dist < 8")
  case True
  then have "byte_of (merge_words dist (word_at m sa) (word_at m (sa + 8))) i =
      byte_of (word_at m sa) (i + dist)"
    using byte_of_merge[OF assms] by simp
  also have "\<dots> = m (sa + of_nat (i + dist))" by (rule byte_of_word_at[OF True])
  finally show ?thesis by (simp add: ac_simps)
next
  case False
  then have "byte_of (merge_words dist (word_at m sa) (word_at m (sa + 8))) i =
      byte_of (word_at m (sa + 8)) (i + dist - 8)"
    using byte_of_merge[OF assms] by simp
  also have "\<dots> = m (sa + 8 + of_nat (i + dist - 8))"
    using assms by (intro byte_of_word_at) simp
  also have "sa + 8 + of_nat (i + dist - 8) = sa + of_nat dist + of_nat i"
  proof -
    have "i + dist = 8 + (i + dist - 8)" using False by simp
    then have "(of_nat (i + dist) :: 64 word) = 8 + of_nat (i + dist - 8)"
      by (metis of_nat_add of_nat_numeral)
    then have "sa + 8 + of_nat (i + dist - 8) = sa + of_nat (i + dist)" by (simp only: add.assoc)
    then show ?thesis by (simp add: ac_simps)
  qed
  finally show ?thesis .
qed

lemma merge_window:
  assumes "0 < dist" "dist < 8"
  shows "merge_words dist (word_at m sa) (word_at m (sa + 8)) = word_at m (sa + of_nat dist)"
proof (rule word_eq_bytes)
  fix i :: nat assume i: "i < 8"
  show "byte_of (merge_words dist (word_at m sa) (word_at m (sa + 8))) i =
      byte_of (word_at m (sa + of_nat dist)) i"
    unfolding merge_window_byte[OF assms i] byte_of_word_at[OF i] ..
qed

lemma shift_merge_exec:
  assumes thr: "MIN_THRESHOLD \<le> count" and dj: "disjoint d s (unat count)"
    and p: "p = (8 - unat (d AND 7)) mod 8"
    and dist: "dist = unat ((s + of_nat p) AND 7)" and nz: "dist \<noteq> 0"
    and sa: "sa = s + of_nat p - of_nat dist"
    and q: "q = (unat count - p) div 8"
  shows "sa AND 7 = 0 \<and> 0 < q \<and>
    (\<exists>st'. memcpy False d s count \<lparr>mem = m, trace = []\<rparr> = Some (d, st') \<and>
       trace st' = byte_trace d s p @ LoadW sa # shift_trace (d + of_nat p) sa q @
         byte_trace (d + of_nat p + of_nat (8 * q)) (s + of_nat p + of_nat (8 * q))
           ((unat count - p) mod 8) \<and>
       mem st' = copied m d s (unat count) \<and>
       (\<forall>j < q.
          word_at (mem st') (d + of_nat p + of_nat (8 * j)) =
            merge_words dist (word_at m (sa + of_nat (8 * j))) (word_at m (sa + of_nat (8 * j) + 8)) \<and>
          (\<forall>i < 8. mem st' (d + of_nat p + of_nat (8 * j) + of_nat i) =
                     m (s + of_nat p + of_nat (8 * j) + of_nat i))))"
proof -
  define st0 where "st0 = \<lparr>mem = m, trace = []\<rparr>"
  have d8: "0 < dist" "dist < 8" using nz dist by (simp_all add: unat_and7)
  have dw: "(of_nat dist :: 64 word) = (s + of_nat p) AND 7" by (simp add: dist)
  have al: "sa AND 7 = 0" unfolding sa dw by (rule sub_low_bits)
  have q0: "0 < q" by (rule memcpy_shift_trace(2)[OF thr p dist nz q])
  obtain st' where t: "memcpy False d s count st0 = Some (d, st')"
    "trace st' = trace st0 @ byte_trace d s p @ LoadW (s + of_nat p - of_nat dist) #
       shift_trace (d + of_nat p) (s + of_nat p - of_nat dist) q @
       byte_trace (d + of_nat p + of_nat (8 * q)) (s + of_nat p + of_nat (8 * q))
         ((unat count - p) mod 8)"
    using memcpy_shift_trace(1)[OF thr p dist nz q, of st0] by blast
  obtain st'' where i: "memcpy False d s count st0 = Some (d, st'')"
    "copy_inv True m d s (unat count) (unat count) st''"
    unfolding st0_def using memcpy_inv[OF refl TrueI] by blast
  have "st'' = st'" using t(1) i(1) by simp
  then have mem: "mem st' = copied m d s (unat count)" using i(2) dj by (simp add: copy_inv_def)
  have p7: "p \<le> 7" unfolding p by (rule to_boundary_le7)
  have N: "p + 8 * q \<le> unat count"
    using prefix_count(2)[OF thr p7] unfolding q by simp
  have byte: "mem st' (d + of_nat p + of_nat (8 * j) + of_nat i) =
      m (s + of_nat p + of_nat (8 * j) + of_nat i)" if "j < q" "i < 8" for j i
  proof -
    have lt: "p + 8 * j + i < unat count" using that N by simp
    have "mem st' (d + of_nat (p + 8 * j + i)) = m (s + of_nat (p + 8 * j + i))"
      unfolding mem by (rule copied_dest[OF lt unat_count_lt[OF lt]])
    then show ?thesis by (simp only: of_nat_add add.assoc)
  qed
  have word: "word_at (mem st') (d + of_nat p + of_nat (8 * j)) =
      merge_words dist (word_at m (sa + of_nat (8 * j))) (word_at m (sa + of_nat (8 * j) + 8))"
    if j: "j < q" for j
  proof -
    have e: "sa + of_nat (8 * j) + of_nat dist = s + of_nat p + of_nat (8 * j)"
      unfolding sa by simp
    have "word_at (mem st') (d + of_nat p + of_nat (8 * j)) = word_at m (s + of_nat p + of_nat (8 * j))"
    proof (rule word_eq_bytes)
      fix i :: nat assume i: "i < 8"
      show "byte_of (word_at (mem st') (d + of_nat p + of_nat (8 * j))) i =
          byte_of (word_at m (s + of_nat p + of_nat (8 * j))) i"
        unfolding byte_of_word_at[OF i] by (rule byte[OF j i])
    qed
    also have "\<dots> = merge_words dist (word_at m (sa + of_nat (8 * j)))
        (word_at m (sa + of_nat (8 * j) + 8))"
      unfolding merge_window[OF d8] e ..
    finally show ?thesis .
  qed
  have tr: "trace st' = byte_trace d s p @ LoadW sa # shift_trace (d + of_nat p) sa q @
         byte_trace (d + of_nat p + of_nat (8 * q)) (s + of_nat p + of_nat (8 * q))
           ((unat count - p) mod 8)"
    using t(2) unfolding sa by (simp add: st0_def)
  show ?thesis using al q0 t(1) tr mem word byte unfolding st0_def by blast
qed

text \<open>
  C3. On the shift-merge path (flag off, \<open>count \<ge> 2W\<close>, \<open>p\<close> prefix bytes copied until the
  destination is word-aligned, \<open>distance = (s + p) mod W \<noteq> 0\<close>, little-endian words, disjoint
  regions) the call rewinds the source to the aligned address \<open>sa = s + p - distance\<close>, loads
  the word at \<open>sa\<close> and then runs \<open>q = (count - p) div W > 0\<close> iterations; iteration \<open>j\<close>
  loads the aligned source word at \<open>sa + W * (j + 1)\<close> and stores a word at \<open>d + p + W * j\<close>
  (the access log of the call is exactly the prefix byte copies, these word accesses and the
  tail byte copies). The word that the loop leaves at \<open>d + p + W * j\<close> is
  \<open>(last >> (distance * 8)) | (next << ((W - distance) * 8))\<close> for the consecutive aligned
  source words \<open>last\<close> at \<open>sa + W * j\<close> and \<open>next\<close> at \<open>sa + W * (j + 1)\<close>, and its byte
  \<open>i\<close> is the source byte at \<open>s + p + W * j + i\<close>. In the scenario \<open>W = 8\<close>, a source of 100
  bytes holding \<open>0 .. 99\<close> at \<open>0x2003\<close> and the word-aligned destination \<open>0x1000\<close> (so
  \<open>distance = 3\<close>), the call loads the word at \<open>0x2000\<close>, runs 12 iterations of the loop and
  copies the last 4 bytes one by one, and the destination bytes \<open>0 .. 99\<close> hold \<open>0 .. 99\<close>.
\<close>

theorem shift_merge_window:
  "(MIN_THRESHOLD \<le> count \<and> disjoint d s (unat count) \<and>
    p = (unat BYTES_LONG - unat (d AND WORD_MASK)) mod unat BYTES_LONG \<and>
    distance = unat ((s + of_nat p) AND WORD_MASK) \<and> distance \<noteq> 0 \<and>
    sa = s + of_nat p - of_nat distance \<and> q = (unat count - p) div unat BYTES_LONG \<longrightarrow>
      distance < unat BYTES_LONG \<and> sa AND WORD_MASK = 0 \<and> 0 < q \<and>
      (\<exists>st'. memcpy False d s count \<lparr>mem = m, trace = []\<rparr> = Some (d, st') \<and>
         trace st' = byte_trace d s p @ LoadW sa # shift_trace (d + of_nat p) sa q @
           byte_trace (d + of_nat p + of_nat (8 * q)) (s + of_nat p + of_nat (8 * q))
             ((unat count - p) mod unat BYTES_LONG) \<and>
         (\<forall>j < q.
            word_at (mem st') (d + of_nat p + of_nat (8 * j)) =
              merge_words distance (word_at m (sa + of_nat (8 * j)))
                (word_at m (sa + of_nat (8 * j) + BYTES_LONG)) \<and>
            word_at (mem st') (d + of_nat p + of_nat (8 * j)) =
              drop_bit (distance * 8) (word_at m (sa + of_nat (8 * j))) OR
              push_bit ((unat BYTES_LONG - distance) * 8)
                (word_at m (sa + of_nat (8 * j) + BYTES_LONG)) \<and>
            (\<forall>i < unat BYTES_LONG.
               byte_of (word_at (mem st') (d + of_nat p + of_nat (8 * j))) i =
                 m (s + of_nat p + of_nat (8 * j) + of_nat i) \<and>
               mem st' (d + of_nat p + of_nat (8 * j) + of_nat i) =
                 m (s + of_nat p + of_nat (8 * j) + of_nat i))))) \<and>
   ((\<forall>i < 100. m (0x2003 + of_nat i) = of_nat i) \<longrightarrow>
      unat ((0x2003 :: 64 word) AND WORD_MASK) = 3 \<and> (0x1000 :: 64 word) AND WORD_MASK = 0 \<and>
      (\<exists>st'. memcpy False 0x1000 0x2003 100 \<lparr>mem = m, trace = []\<rparr> = Some (0x1000, st') \<and>
         trace st' = LoadW 0x2000 # shift_trace 0x1000 0x2000 12 @ byte_trace 0x1060 0x2063 4 \<and>
         (\<forall>i < 100. mem st' (0x1000 + of_nat i) = of_nat i)))"
proof (intro conjI impI)
  assume a: "MIN_THRESHOLD \<le> count \<and> disjoint d s (unat count) \<and>
    p = (unat BYTES_LONG - unat (d AND WORD_MASK)) mod unat BYTES_LONG \<and>
    distance = unat ((s + of_nat p) AND WORD_MASK) \<and> distance \<noteq> 0 \<and>
    sa = s + of_nat p - of_nat distance \<and> q = (unat count - p) div unat BYTES_LONG"
  have c: "unat BYTES_LONG = 8" "WORD_MASK = 7" by (simp_all add: BYTES_LONG_def WORD_MASK_def)
  from a have h0: "MIN_THRESHOLD \<le> count" "disjoint d s (unat count)"
    "p = (unat BYTES_LONG - unat (d AND WORD_MASK)) mod unat BYTES_LONG"
    "distance = unat ((s + of_nat p) AND WORD_MASK)" "distance \<noteq> 0"
    "sa = s + of_nat p - of_nat distance" "q = (unat count - p) div unat BYTES_LONG"
    by blast+
  note h = h0[unfolded c]
  note e = shift_merge_exec[OF h, of m]
  have d8: "distance < 8" using h(4) by (simp add: unat_and7)
  show "distance < unat BYTES_LONG" using d8 by (simp add: BYTES_LONG_def)
  show "sa AND WORD_MASK = 0" using e by (simp add: BYTES_LONG_def WORD_MASK_def)
  show "0 < q" using e by simp
  obtain st' where r: "memcpy False d s count \<lparr>mem = m, trace = []\<rparr> = Some (d, st')"
    "trace st' = byte_trace d s p @ LoadW sa # shift_trace (d + of_nat p) sa q @
       byte_trace (d + of_nat p + of_nat (8 * q)) (s + of_nat p + of_nat (8 * q))
         ((unat count - p) mod 8)"
    and w: "\<And>j. j < q \<Longrightarrow> word_at (mem st') (d + of_nat p + of_nat (8 * j)) =
        merge_words distance (word_at m (sa + of_nat (8 * j))) (word_at m (sa + of_nat (8 * j) + 8))"
    and b: "\<And>j i. j < q \<Longrightarrow> i < 8 \<Longrightarrow> mem st' (d + of_nat p + of_nat (8 * j) + of_nat i) =
        m (s + of_nat p + of_nat (8 * j) + of_nat i)"
    using e by blast
  have u8: "unat BYTES_LONG = 8" by (simp add: BYTES_LONG_def)
  have "\<forall>j < q.
            word_at (mem st') (d + of_nat p + of_nat (8 * j)) =
              merge_words distance (word_at m (sa + of_nat (8 * j)))
                (word_at m (sa + of_nat (8 * j) + BYTES_LONG)) \<and>
            word_at (mem st') (d + of_nat p + of_nat (8 * j)) =
              drop_bit (distance * 8) (word_at m (sa + of_nat (8 * j))) OR
              push_bit ((unat BYTES_LONG - distance) * 8)
                (word_at m (sa + of_nat (8 * j) + BYTES_LONG)) \<and>
            (\<forall>i < unat BYTES_LONG.
               byte_of (word_at (mem st') (d + of_nat p + of_nat (8 * j))) i =
                 m (s + of_nat p + of_nat (8 * j) + of_nat i) \<and>
               mem st' (d + of_nat p + of_nat (8 * j) + of_nat i) =
                 m (s + of_nat p + of_nat (8 * j) + of_nat i))"
  proof (intro allI impI conjI)
    fix j assume j: "j < q"
    show m1: "word_at (mem st') (d + of_nat p + of_nat (8 * j)) =
        merge_words distance (word_at m (sa + of_nat (8 * j)))
          (word_at m (sa + of_nat (8 * j) + BYTES_LONG))"
      unfolding BYTES_LONG_def by (rule w[OF j])
    show "word_at (mem st') (d + of_nat p + of_nat (8 * j)) =
        drop_bit (distance * 8) (word_at m (sa + of_nat (8 * j))) OR
        push_bit ((unat BYTES_LONG - distance) * 8)
          (word_at m (sa + of_nat (8 * j) + BYTES_LONG))"
      unfolding m1 by (rule merge_words_def)
    fix i assume "i < unat BYTES_LONG"
    then have i: "i < 8" by (simp add: u8)
    show "mem st' (d + of_nat p + of_nat (8 * j) + of_nat i) =
        m (s + of_nat p + of_nat (8 * j) + of_nat i)"
      by (rule b[OF j i])
    then show "byte_of (word_at (mem st') (d + of_nat p + of_nat (8 * j))) i =
        m (s + of_nat p + of_nat (8 * j) + of_nat i)"
      unfolding byte_of_word_at[OF i] .
  qed
  then show "\<exists>st'. memcpy False d s count \<lparr>mem = m, trace = []\<rparr> = Some (d, st') \<and>
         trace st' = byte_trace d s p @ LoadW sa # shift_trace (d + of_nat p) sa q @
           byte_trace (d + of_nat p + of_nat (8 * q)) (s + of_nat p + of_nat (8 * q))
             ((unat count - p) mod unat BYTES_LONG) \<and>
         (\<forall>j < q.
            word_at (mem st') (d + of_nat p + of_nat (8 * j)) =
              merge_words distance (word_at m (sa + of_nat (8 * j)))
                (word_at m (sa + of_nat (8 * j) + BYTES_LONG)) \<and>
            word_at (mem st') (d + of_nat p + of_nat (8 * j)) =
              drop_bit (distance * 8) (word_at m (sa + of_nat (8 * j))) OR
              push_bit ((unat BYTES_LONG - distance) * 8)
                (word_at m (sa + of_nat (8 * j) + BYTES_LONG)) \<and>
            (\<forall>i < unat BYTES_LONG.
               byte_of (word_at (mem st') (d + of_nat p + of_nat (8 * j))) i =
                 m (s + of_nat p + of_nat (8 * j) + of_nat i) \<and>
               mem st' (d + of_nat p + of_nat (8 * j) + of_nat i) =
                 m (s + of_nat p + of_nat (8 * j) + of_nat i)))"
    using r unfolding u8 by blast
next
  show "unat ((0x2003 :: 64 word) AND WORD_MASK) = 3" by (simp add: WORD_MASK_def BYTES_LONG_def)
  show "(0x1000 :: 64 word) AND WORD_MASK = 0" by (simp add: WORD_MASK_def BYTES_LONG_def)
next
  assume src: "\<forall>i < 100. m (0x2003 + of_nat i) = of_nat i"
  have h: "MIN_THRESHOLD \<le> (100 :: 64 word)" "disjoint 0x1000 0x2003 (unat (100 :: 64 word))"
    "(0::nat) = (8 - unat ((0x1000 :: 64 word) AND 7)) mod 8"
    "(3::nat) = unat (((0x2003 :: 64 word) + of_nat 0) AND 7)" "(3::nat) \<noteq> 0"
    "(0x2000 :: 64 word) = 0x2003 + of_nat 0 - of_nat 3"
    "(12::nat) = (unat (100 :: 64 word) - 0) div 8"
    by (simp_all add: MIN_THRESHOLD_def BYTES_LONG_def disjoint_def)
  obtain st' where r: "memcpy False 0x1000 0x2003 100 \<lparr>mem = m, trace = []\<rparr> = Some (0x1000, st')"
    "trace st' = byte_trace 0x1000 0x2003 0 @ LoadW 0x2000 #
       shift_trace (0x1000 + of_nat 0) 0x2000 12 @
       byte_trace (0x1000 + of_nat 0 + of_nat (8 * 12)) (0x2003 + of_nat 0 + of_nat (8 * 12))
         ((unat (100 :: 64 word) - 0) mod 8)"
    "mem st' = copied m 0x1000 0x2003 (unat (100 :: 64 word))"
    using shift_merge_exec[OF h, of m] by blast
  have t: "trace st' = LoadW 0x2000 # shift_trace 0x1000 0x2000 12 @ byte_trace 0x1060 0x2063 4"
  proof -
    have "(0x1000 :: 64 word) + of_nat 0 + of_nat (8 * 12) = 0x1060"
      "(0x2003 :: 64 word) + of_nat 0 + of_nat (8 * 12) = 0x2063"
      "(0x1000 :: 64 word) + of_nat 0 = 0x1000"
      "(unat (100 :: 64 word) - 0) mod 8 = 4" by simp_all
    then show ?thesis using r(2) by (simp only: byte_trace.simps append_Nil)
  qed
  have "\<forall>i < 100. mem st' (0x1000 + of_nat i) = of_nat i"
    unfolding r(3) using src by (simp add: copied_dest)
  then show "\<exists>st'. memcpy False 0x1000 0x2003 100 \<lparr>mem = m, trace = []\<rparr> = Some (0x1000, st') \<and>
         trace st' = LoadW 0x2000 # shift_trace 0x1000 0x2000 12 @ byte_trace 0x1060 0x2063 4 \<and>
         (\<forall>i < 100. mem st' (0x1000 + of_nat i) = of_nat i)"
    using r(1) t by blast
qed

lemma ucast_of_nat_u8: "(ucast (of_nat i :: 64 word) :: 8 word) = of_nat i"
  by (rule bit_word_eqI) (auto simp: bit_simps)

theorem shift_merge_window_witness:
  "(MIN_THRESHOLD \<le> (16 :: 64 word) \<and> disjoint 0x1003 0x2000 (unat (16 :: 64 word)) \<and>
    (5::nat) = (unat BYTES_LONG - unat ((0x1003 :: 64 word) AND WORD_MASK)) mod unat BYTES_LONG \<and>
    (5::nat) = unat (((0x2000 :: 64 word) + of_nat 5) AND WORD_MASK) \<and> (5::nat) \<noteq> 0 \<and>
    (0x2000 :: 64 word) = 0x2000 + of_nat 5 - of_nat 5 \<and>
    (1::nat) = (unat (16 :: 64 word) - 5) div unat BYTES_LONG) \<and>
   (\<exists>st'. memcpy False 0x1003 0x2000 16 \<lparr>mem = ucast, trace = []\<rparr> = Some (0x1003, st') \<and>
      trace st' = byte_trace 0x1003 0x2000 5 @ LoadW 0x2000 # shift_trace 0x1008 0x2000 1 @
        byte_trace 0x1010 0x200D 3 \<and>
      word_at (mem st') 0x1008 = merge_words 5 (word_at ucast 0x2000) (word_at ucast 0x2008) \<and>
      word_at ucast 0x2000 = 0x0706050403020100 \<and> word_at ucast 0x2008 = 0x0F0E0D0C0B0A0908 \<and>
      word_at (mem st') 0x1008 = 0x0C0B0A0908070605 \<and>
      (\<forall>i < 8. mem st' (0x1008 + of_nat i) = ucast (0x2005 + of_nat i :: 64 word))) \<and>
   (\<exists>st'. memcpy False 0x1000 0x2003 100
              \<lparr>mem = (\<lambda>a. ucast (a - 0x2003 :: 64 word)), trace = []\<rparr> = Some (0x1000, st') \<and>
      trace st' = LoadW 0x2000 # shift_trace 0x1000 0x2000 12 @ byte_trace 0x1060 0x2063 4 \<and>
      (\<forall>i < 100. (\<lambda>a. ucast (a - 0x2003 :: 64 word) :: 8 word) (0x2003 + of_nat i) = of_nat i) \<and>
      (\<forall>i < 100. mem st' (0x1000 + of_nat i) = of_nat i))"
proof -
  have h: "MIN_THRESHOLD \<le> (16 :: 64 word) \<and> disjoint 0x1003 0x2000 (unat (16 :: 64 word)) \<and>
    (5::nat) = (unat BYTES_LONG - unat ((0x1003 :: 64 word) AND WORD_MASK)) mod unat BYTES_LONG \<and>
    (5::nat) = unat (((0x2000 :: 64 word) + of_nat 5) AND WORD_MASK) \<and> (5::nat) \<noteq> 0 \<and>
    (0x2000 :: 64 word) = 0x2000 + of_nat 5 - of_nat 5 \<and>
    (1::nat) = (unat (16 :: 64 word) - 5) div unat BYTES_LONG"
    by (simp add: MIN_THRESHOLD_def BYTES_LONG_def WORD_MASK_def disjoint_def)
  obtain st' where r: "memcpy False 0x1003 0x2000 16 \<lparr>mem = ucast, trace = []\<rparr> = Some (0x1003, st')"
    "trace st' = byte_trace 0x1003 0x2000 5 @ LoadW 0x2000 #
       shift_trace (0x1003 + of_nat 5) 0x2000 1 @
       byte_trace (0x1003 + of_nat 5 + of_nat (8 * 1)) (0x2000 + of_nat 5 + of_nat (8 * 1))
         ((unat (16 :: 64 word) - 5) mod unat BYTES_LONG)"
    "\<forall>j < 1.
       word_at (mem st') (0x1003 + of_nat 5 + of_nat (8 * j)) =
         merge_words 5 (word_at ucast (0x2000 + of_nat (8 * j)))
           (word_at ucast (0x2000 + of_nat (8 * j) + BYTES_LONG)) \<and>
       word_at (mem st') (0x1003 + of_nat 5 + of_nat (8 * j)) =
         drop_bit (5 * 8) (word_at ucast (0x2000 + of_nat (8 * j))) OR
         push_bit ((unat BYTES_LONG - 5) * 8)
           (word_at ucast (0x2000 + of_nat (8 * j) + BYTES_LONG)) \<and>
       (\<forall>i < unat BYTES_LONG.
          byte_of (word_at (mem st') (0x1003 + of_nat 5 + of_nat (8 * j))) i =
            (ucast (0x2000 + of_nat 5 + of_nat (8 * j) + of_nat i :: 64 word) :: 8 word) \<and>
          mem st' (0x1003 + of_nat 5 + of_nat (8 * j) + of_nat i) =
            ucast (0x2000 + of_nat 5 + of_nat (8 * j) + of_nat i :: 64 word))"
    using shift_merge_window[where count = "16 :: 64 word" and d = "0x1003" and s = "0x2000"
        and p = 5 and distance = 5 and sa = "0x2000" and q = 1 and m = ucast] h
    by blast
  have a: "(0x1003 :: 64 word) + of_nat 5 = 0x1008" "(0x1008 :: 64 word) + of_nat (8 * 1) = 0x1010"
    "(0x2000 :: 64 word) + of_nat 5 + of_nat (8 * 1) = 0x200D"
    "(unat (16 :: 64 word) - 5) mod unat BYTES_LONG = 3"
    by (simp_all add: BYTES_LONG_def)
  have t: "trace st' = byte_trace 0x1003 0x2000 5 @ LoadW 0x2000 # shift_trace 0x1008 0x2000 1 @
        byte_trace 0x1010 0x200D 3"
    using r(2) unfolding a .
  have j0: "word_at (mem st') 0x1008 = merge_words 5 (word_at ucast 0x2000) (word_at ucast 0x2008)"
    "\<forall>i < 8. mem st' (0x1008 + of_nat i) = ucast (0x2005 + of_nat i :: 64 word)"
    using r(3)[rule_format, of 0] by (simp_all add: BYTES_LONG_def)
  have w: "word_at ucast 0x2000 = (0x0706050403020100 :: 64 word)"
    "word_at ucast 0x2008 = (0x0F0E0D0C0B0A0908 :: 64 word)"
    by (simp_all add: word_at_def)
  have v: "word_at (mem st') 0x1008 = 0x0C0B0A0908070605"
    unfolding j0(1) w by (simp add: merge_words_def BYTES_LONG_def)
  have A: "\<exists>st'. memcpy False 0x1003 0x2000 16 \<lparr>mem = ucast, trace = []\<rparr> = Some (0x1003, st') \<and>
      trace st' = byte_trace 0x1003 0x2000 5 @ LoadW 0x2000 # shift_trace 0x1008 0x2000 1 @
        byte_trace 0x1010 0x200D 3 \<and>
      word_at (mem st') 0x1008 = merge_words 5 (word_at ucast 0x2000) (word_at ucast 0x2008) \<and>
      word_at ucast 0x2000 = 0x0706050403020100 \<and> word_at ucast 0x2008 = 0x0F0E0D0C0B0A0908 \<and>
      word_at (mem st') 0x1008 = 0x0C0B0A0908070605 \<and>
      (\<forall>i < 8. mem st' (0x1008 + of_nat i) = ucast (0x2005 + of_nat i :: 64 word))"
    using r(1) t j0 w v by blast
  have s: "\<forall>i < 100. (\<lambda>a. ucast (a - 0x2003 :: 64 word) :: 8 word) (0x2003 + of_nat i) = of_nat i"
    by (simp add: ucast_of_nat_u8)
  have B: "\<exists>st'. memcpy False 0x1000 0x2003 100
              \<lparr>mem = (\<lambda>a. ucast (a - 0x2003 :: 64 word)), trace = []\<rparr> = Some (0x1000, st') \<and>
      trace st' = LoadW 0x2000 # shift_trace 0x1000 0x2000 12 @ byte_trace 0x1060 0x2063 4 \<and>
      (\<forall>i < 100. (\<lambda>a. ucast (a - 0x2003 :: 64 word) :: 8 word) (0x2003 + of_nat i) = of_nat i) \<and>
      (\<forall>i < 100. mem st' (0x1000 + of_nat i) = of_nat i)"
    using shift_merge_window[where m = "\<lambda>a. ucast (a - 0x2003 :: 64 word)" and count = 0 and d = 0
        and s = 0 and p = 0 and distance = 0 and sa = 0 and q = 0] s
    by blast
  show ?thesis by (rule conjI[OF h conjI[OF A B]])
qed

end
